theory Spec2Isabelle
  imports Main "HOL-Library.AList" "HOL-Library.Multiset"
begin

section \<open>The H5P runner of Kolibri's hashi package\<close>

text \<open>
  A shallow embedding of \<^verbatim>\<open>packages/hashi/src/H5P/H5PRunner.js\<close>: the recursive
  discovery of package dependencies in an H5P archive, the ordering of the packages,
  the rewriting of \<^verbatim>\<open>url(...)\<close> references of stylesheets, the tiered loading of
  styles and scripts, the user data shim and the hook that reports xAPI events.

  JavaScript objects used as dictionaries are association lists in insertion order,
  exceptions and rejected promises are the left injection of a sum. What the platform
  decides is a parameter: the order in which the reads of the archive complete, the
  times of the events and of the timeouts, the resolution of URLs and
  \<^verbatim>\<open>JSON.stringify\<close>.
\<close>

subsection \<open>Archive and descriptors\<close>

text \<open>An entry of \<^verbatim>\<open>preloadedDependencies\<close>.\<close>

record dep_ref =
  machineName :: string
  majorVersion :: nat
  minorVersion :: nat

text \<open>
  A parsed \<^verbatim>\<open>h5p.json\<close> or \<^verbatim>\<open>library.json\<close>. A missing list is the empty list
  (the source reads \<^verbatim>\<open>json['preloadedJs'] || []\<close>); the file lists hold the \<^verbatim>\<open>path\<close>
  fields.
\<close>

record descriptor =
  json_preloadedDependencies :: "dep_ref list"
  json_preloadedJs :: "string list"
  json_preloadedCss :: "string list"
  json_mainLibrary :: "string option"

text \<open>
  The content of an archive entry: \<open>Json s d\<close> is a text \<open>s\<close> that \<^verbatim>\<open>JSON.parse\<close> turns
  into the descriptor \<open>d\<close> (the model never parses \<open>s\<close> itself), \<open>Bytes s\<close> is any other
  content (\<^verbatim>\<open>JSON.parse\<close> throws on it).
\<close>

datatype file_content = Json string descriptor | Bytes string

text \<open>What \<^verbatim>\<open>file.async('string')\<close> and \<^verbatim>\<open>file.async('uint8array')\<close> read.\<close>

fun textOf :: "file_content \<Rightarrow> string" where
  "textOf (Json s d) = s"
| "textOf (Bytes s) = s"

text \<open>The archive, entries in archive order; \<^verbatim>\<open>zip.file(name)\<close> is \<^const>\<open>map_of\<close>.\<close>

type_synonym zip = "(string \<times> file_content) list"

datatype error =
  EntryNotFound            \<comment> \<open>\<^verbatim>\<open>zip.file(name)\<close> is null, the call of \<^verbatim>\<open>async\<close> on it throws\<close>
  | DescriptorParseError   \<comment> \<open>\<^verbatim>\<open>JSON.parse\<close> throws\<close>
  | StylesheetMissing      \<comment> \<open>\<^verbatim>\<open>packageFiles[dep]\<close> is undefined in \<^verbatim>\<open>replacePaths\<close>\<close>
  | PackageUnknown         \<comment> \<open>a property of an undefined entry of an object keyed by package path is read or set\<close>

subsection \<open>Objects as dictionaries\<close>

text \<open>
  The dictionaries of the runner are plain objects (\<^verbatim>\<open>{}\<close>): reading a property that
  the object does not own goes on to \<^verbatim>\<open>Object.prototype\<close>. A read finds an own value, a
  member of \<^verbatim>\<open>Object.prototype\<close> (a function, or the prototype itself for
  \<^verbatim>\<open>__proto__\<close>), or \<^verbatim>\<open>undefined\<close>.
\<close>

datatype 'v property = Own 'v | Inherited string | Undefined

definition objectPrototype :: "string list" where
  "objectPrototype = [''constructor'', ''__defineGetter__'', ''__defineSetter__'', ''hasOwnProperty'',
     ''__lookupGetter__'', ''__lookupSetter__'', ''isPrototypeOf'', ''propertyIsEnumerable'',
     ''toString'', ''valueOf'', ''__proto__'', ''toLocaleString'']"

definition objGet :: "(string \<times> 'v) list \<Rightarrow> string \<Rightarrow> 'v property" where
  "objGet obj k =
     (case map_of obj k of
        Some v \<Rightarrow> Own v
      | None \<Rightarrow> if k \<in> set objectPrototype then Inherited k else Undefined)"

text \<open>
  An assignment \<^verbatim>\<open>obj[k] = v\<close> overwrites the own property in place or adds it after
  the others (\<^const>\<open>AList.update\<close>). An assignment to \<^verbatim>\<open>__proto__\<close> adds no own property
  (the setter ignores a string or a boolean; the objects that hold lists and objects
  are keyed by package paths, which end with \<^verbatim>\<open>/\<close>). The order of the keys is the order
  of insertion (keys that are array indices would come first; package paths and the
  file paths of the examples are not).
\<close>

definition objSet :: "string \<Rightarrow> 'v \<Rightarrow> (string \<times> 'v) list \<Rightarrow> (string \<times> 'v) list" where
  "objSet k v obj = (if k = ''__proto__'' then obj else AList.update k v obj)"

text \<open>
  An inherited member inside a template literal, as V8 prints it (the text differs
  between engines; no result below depends on more than its being non-empty).
\<close>

definition inheritedText :: "string \<Rightarrow> string" where
  "inheritedText k =
     (if k = ''__proto__'' then ''[object Object]''
      else if k = ''constructor'' then ''function Object() { [native code] }''
      else ''function '' @ k @ ''() { [native code] }'')"

subsection \<open>The runner's state\<close>

text \<open>The record pushed onto \<^verbatim>\<open>this.dependencies\<close>.\<close>

record dependency =
  packagePath :: string
  dependencies :: "string list"
  preloadedCss :: "string list"
  preloadedJs :: "string list"

text \<open>
  A value of a package's file map: the URL of a blob made by \<^verbatim>\<open>URL.createObjectURL\<close>,
  or the text of a stylesheet. Both are strings in the source.
\<close>

datatype resource = BlobUrl string | RawText string

fun resource_string :: "resource \<Rightarrow> string" where
  "resource_string (BlobUrl u) = u"
| "resource_string (RawText t) = t"

text \<open>
  An element of the processed \<^verbatim>\<open>cssDependencies\<close> and \<^verbatim>\<open>jsDependencies\<close> arrays. The
  values of \<^verbatim>\<open>fileMap\<close> are what the reads of the package's file map gave.
\<close>

record dep_map =
  dependency :: string
  fileMap :: "(string \<times> resource property) list"

text \<open>
  The fields of \<^verbatim>\<open>H5PRunner\<close> that \<^verbatim>\<open>init\<close> sets up. The source reuses
  \<^verbatim>\<open>this.cssDependencies\<close> and \<^verbatim>\<open>this.jsDependencies\<close>: first an object from package
  path to file list (\<^verbatim>\<open>setDependencies\<close>), then the array of file maps
  (\<^verbatim>\<open>processCssDependencies\<close>, \<^verbatim>\<open>processJsDependencies\<close>); the model has a field for each
  use. \<open>this_blobs\<close> holds the contents of the blobs created so far; their number makes
  the next URL (the MIME type of a blob, looked up in \<^verbatim>\<open>mimetypes.json\<close>, is left out).
\<close>

record runner =
  this_dependencies :: "dependency list"
  this_rootConfig :: "descriptor option"
  this_library :: "string option"
  this_packageFiles :: "(string \<times> (string \<times> resource) list) list"
  this_cssDependencies :: "(string \<times> string list) list"
  this_jsDependencies :: "(string \<times> string list) list"
  this_sortedDependencies :: "string list"
  this_cssLoad :: "dep_map list"
  this_jsLoad :: "dep_map list"
  this_contentPaths :: "(string \<times> resource) list"
  this_contentJson :: string
  this_loadedJs :: "(string \<times> bool) list"
  this_loadedCss :: "(string \<times> bool) list"
  this_blobs :: "string list"

definition init_runner :: runner where
  "init_runner = \<lparr> this_dependencies = [], this_rootConfig = None, this_library = None,
     this_packageFiles = [], this_cssDependencies = [], this_jsDependencies = [],
     this_sortedDependencies = [], this_cssLoad = [], this_jsLoad = [],
     this_contentPaths = [], this_contentJson = [], this_loadedJs = [],
     this_loadedCss = [], this_blobs = [] \<rparr>"

subsection \<open>recurseDependencies\<close>

text \<open>Decimal rendering of a number inside a template literal.\<close>

fun digit :: "nat \<Rightarrow> char" where
  "digit n = (''0123456789'' ! (n mod 10))"

fun decimal :: "nat \<Rightarrow> string" where
  "decimal n = (if n < 10 then [digit n] else decimal (n div 10) @ [digit n])"

definition packagePathOf :: "dep_ref \<Rightarrow> string" where
  "packagePathOf dep =
     machineName dep @ ''-'' @ decimal (majorVersion dep) @ ''.'' @ decimal (minorVersion dep) @ ''/''"

text \<open>
  The synchronous pass of \<^verbatim>\<open>dependencies.map\<close> over the paths of the declared
  dependencies: a path already in \<^verbatim>\<open>visitedPaths\<close> is skipped, any other is added to it
  and is recursed into. The result is the final \<^verbatim>\<open>visitedPaths\<close> and the paths recursed
  into, in order. Every recursive call receives the same object and copies it only
  inside its own \<^verbatim>\<open>then\<close> callback, which runs after this pass: each child starts from
  the final set.
\<close>

fun markVisited :: "string set \<Rightarrow> string list \<Rightarrow> string set \<times> string list" where
  "markVisited visitedPaths [] = (visitedPaths, [])"
| "markVisited visitedPaths (p # ps) =
     (if p \<in> visitedPaths then markVisited visitedPaths ps
      else (fst (markVisited (insert p visitedPaths) ps),
            p # snd (markVisited (insert p visitedPaths) ps)))"

text \<open>The main library: the first root dependency named by \<^verbatim>\<open>mainLibrary\<close>.\<close>

fun selectLibrary :: "string option \<Rightarrow> dep_ref list \<Rightarrow> string option \<Rightarrow> string option" where
  "selectLibrary main [] lib = lib"
| "selectLibrary main (dep # deps) lib =
     selectLibrary main deps
       (if lib = None \<and> Some (machineName dep) = main
        then Some (machineName dep @ '' '' @ decimal (majorVersion dep) @ ''.'' @ decimal (minorVersion dep))
        else lib)"

text \<open>The package paths declared by the descriptors of an archive (a finite set).\<close>

definition declaredPaths :: "zip \<Rightarrow> string set" where
  "declaredPaths zp =
     (\<Union>e \<in> set zp. case snd e of Json s json \<Rightarrow> set (map packagePathOf (json_preloadedDependencies json))
                                   | Bytes _ \<Rightarrow> {})"

lemma finite_declaredPaths: "finite (declaredPaths zp)"
  by (auto simp: declaredPaths_def split: file_content.splits)

lemma declaredPaths_lookup:
  "map_of zp f = Some (Json s json) \<Longrightarrow> set (map packagePathOf (json_preloadedDependencies json)) \<subseteq> declaredPaths zp"
  by (force simp: declaredPaths_def dest: map_of_SomeD)

lemma markVisited_measure:
  "finite D \<Longrightarrow> set ps \<subseteq> D \<Longrightarrow>
   card (D - fst (markVisited v ps)) + length (snd (markVisited v ps)) \<le> card (D - v)"
proof (induction ps arbitrary: v)
  case Nil
  then show ?case by simp
next
  case (Cons p ps)
  show ?case
  proof (cases "p \<in> v")
    case True
    with Cons show ?thesis by simp
  next
    case False
    from Cons.prems have pD: "p \<in> D - v" and fin: "finite (D - v)" using False by auto
    have "D - insert p v = (D - v) - {p}" by auto
    then have "card (D - insert p v) = card (D - v) - 1" using pD fin by simp
    moreover have "card (D - v) > 0" using pD fin by (auto simp: card_gt_0_iff)
    moreover have "card (D - fst (markVisited (insert p v) ps)) + length (snd (markVisited (insert p v) ps))
        \<le> card (D - insert p v)"
      using Cons.IH [of "insert p v"] Cons.prems by simp
    ultimately show ?thesis using False by simp
  qed
qed

text \<open>
  \<^verbatim>\<open>recurseDependencies(jsonFile, root, visitedPaths, packagePath)\<close> returns a promise,
  and the promises of the calls made so far form a tree: a call whose read of the
  descriptor is in flight (with the arguments of the call), a call whose \<^verbatim>\<open>then\<close>
  callback has run and which waits in \<^verbatim>\<open>Promise.all\<close> for the calls it made (with its
  \<^verbatim>\<open>packagePath\<close> and parsed descriptor), or a fulfilled promise. The promises that
  \<^verbatim>\<open>Promise.resolve(packagePath)\<close> makes for the visited dependencies are fulfilled from
  the start and are left out of the tree.
\<close>

datatype promise =
  Reading string bool "string set" string
  | Waiting string descriptor "promise list"
  | Fulfilled

text \<open>Whether a promise is fulfilled, and the number of reads in flight in a tree.\<close>

fun isFulfilled :: "promise \<Rightarrow> bool" where
  "isFulfilled Fulfilled = True"
| "isFulfilled (Reading jsonFile root visitedPaths pkgPath) = False"
| "isFulfilled (Waiting pkgPath json ts) = False"

fun pendingReads :: "promise \<Rightarrow> nat" where
  "pendingReads (Reading jsonFile root visitedPaths pkgPath) = 1"
| "pendingReads (Waiting pkgPath json ts) = sum_list (map pendingReads ts)"
| "pendingReads Fulfilled = 0"

text \<open>
  The synchronous part of a call: \<^verbatim>\<open>this.zip.file(jsonFile)\<close> is null for an absent
  entry and the call of \<^verbatim>\<open>async\<close> on it throws, inside the caller; otherwise the read
  is started and the promise is returned.
\<close>

definition recurseDependencies :: "zip \<Rightarrow> string \<Rightarrow> bool \<Rightarrow> string set \<Rightarrow> string \<Rightarrow> error + promise" where
  "recurseDependencies zp jsonFile root visitedPaths pkgPath =
     (case map_of zp jsonFile of
        None \<Rightarrow> Inl EntryNotFound
      | Some content \<Rightarrow> Inr (Reading jsonFile root visitedPaths pkgPath))"

text \<open>
  The calls that \<^verbatim>\<open>dependencies.map\<close> makes for the dependencies that are not visited,
  in order, each with the \<^verbatim>\<open>visitedPaths\<close> object of the caller. A call that throws
  ends the pass: the calls before it stay in flight, the ones after it are not made.
\<close>

fun recurseEach :: "zip \<Rightarrow> string set \<Rightarrow> string list \<Rightarrow> error + promise list" where
  "recurseEach zp visitedPaths [] = Inr []"
| "recurseEach zp visitedPaths (p # ps) =
     (case recurseDependencies zp (p @ ''library.json'') False visitedPaths p of
        Inl e \<Rightarrow> Inl e
      | Inr t \<Rightarrow>
          (case recurseEach zp visitedPaths ps of
             Inl e \<Rightarrow> Inl e
           | Inr ts \<Rightarrow> Inr (t # ts)))"

text \<open>
  The last callback of a call, run when \<^verbatim>\<open>Promise.all\<close> is fulfilled: the record of a
  package (not of the root, whose \<^verbatim>\<open>packagePath\<close> is empty) is pushed onto
  \<^verbatim>\<open>this.dependencies\<close>. Every promise of \<^verbatim>\<open>Promise.all\<close> is fulfilled with the path of
  its dependency, visited or not.
\<close>

definition pushDependency :: "string \<Rightarrow> descriptor \<Rightarrow> runner \<Rightarrow> runner" where
  "pushDependency pkgPath json this =
     (if pkgPath \<noteq> []
      then this\<lparr> this_dependencies := this_dependencies this @
             [\<lparr> packagePath = pkgPath,
                dependencies = map packagePathOf (json_preloadedDependencies json),
                preloadedCss = json_preloadedCss json,
                preloadedJs = json_preloadedJs json \<rparr>] \<rparr>
      else this)"

text \<open>
  \<^verbatim>\<open>Promise.all(...).then(...)\<close> of a call, once the promises it waits for are settled
  as far as they can be: when all are fulfilled the record is pushed and the promise
  of the call is fulfilled, in the same run of the microtask queue.
\<close>

definition promiseAll :: "string \<Rightarrow> descriptor \<Rightarrow> promise list \<Rightarrow> runner \<Rightarrow> promise \<times> runner" where
  "promiseAll pkgPath json ts this =
     (if list_all isFulfilled ts then (Fulfilled, pushDependency pkgPath json this)
      else (Waiting pkgPath json ts, this))"

text \<open>
  The \<^verbatim>\<open>then\<close> callback of the read, run when the content has arrived: \<^verbatim>\<open>JSON.parse\<close>,
  the copy of \<^verbatim>\<open>visitedPaths\<close>, \<^verbatim>\<open>rootConfig\<close> and \<^verbatim>\<open>library\<close> for the root, the pass over
  the dependencies and \<^verbatim>\<open>Promise.all\<close>. An exception rejects the promise of the call.
  (The entry was found when the call was made, so the first case does not occur in
  a run.)
\<close>

definition readCompleted ::
  "zip \<Rightarrow> string \<Rightarrow> bool \<Rightarrow> string set \<Rightarrow> string \<Rightarrow> runner \<Rightarrow> error + promise \<times> runner" where
  "readCompleted zp jsonFile root visitedPaths pkgPath this =
     (case map_of zp jsonFile of
        None \<Rightarrow> Inl EntryNotFound
      | Some (Bytes _) \<Rightarrow> Inl DescriptorParseError
      | Some (Json s json) \<Rightarrow>
          (case recurseEach zp
                  (fst (markVisited visitedPaths (map packagePathOf (json_preloadedDependencies json))))
                  (snd (markVisited visitedPaths (map packagePathOf (json_preloadedDependencies json)))) of
             Inl e \<Rightarrow> Inl e
           | Inr ts \<Rightarrow>
               Inr (promiseAll pkgPath json ts
                      (if root
                       then this\<lparr> this_rootConfig := Some json,
                                  this_library := selectLibrary (json_mainLibrary json)
                                    (json_preloadedDependencies json) (this_library this) \<rparr>
                       else this))))"

text \<open>
  The completion of the read that is number \<open>k\<close> among the reads in flight, counted
  from the left of the tree, and what follows from it before any other read
  completes: the callback of the read and the callbacks of the calls above it whose
  \<^verbatim>\<open>Promise.all\<close> is thereby fulfilled, from the innermost outwards. A rejection passes
  through every \<^verbatim>\<open>Promise.all\<close> above it and rejects the promise of the root call.
\<close>

fun complete :: "zip \<Rightarrow> nat \<Rightarrow> promise \<Rightarrow> runner \<Rightarrow> error + promise \<times> runner"
  and completeIn :: "zip \<Rightarrow> nat \<Rightarrow> promise list \<Rightarrow> runner \<Rightarrow> error + promise list \<times> runner"
where
  "complete zp k (Reading jsonFile root visitedPaths pkgPath) this =
     readCompleted zp jsonFile root visitedPaths pkgPath this"
| "complete zp k (Waiting pkgPath json ts) this =
     (case completeIn zp k ts this of
        Inl e \<Rightarrow> Inl e
      | Inr (ts', this') \<Rightarrow> Inr (promiseAll pkgPath json ts' this'))"
| "complete zp k Fulfilled this = Inr (Fulfilled, this)"
| "completeIn zp k [] this = Inr ([], this)"
| "completeIn zp k (t # ts) this =
     (if k < pendingReads t
      then (case complete zp k t this of
              Inl e \<Rightarrow> Inl e
            | Inr (t', this') \<Rightarrow> Inr (t' # ts, this'))
      else (case completeIn zp (k - pendingReads t) ts this of
              Inl e \<Rightarrow> Inl e
            | Inr (ts', this') \<Rightarrow> Inr (t # ts', this')))"

text \<open>
  The reads in flight weigh less after every completion: a call that still has \<open>n\<close>
  declared paths to visit weighs \<open>2 ^ n\<close>, more than the calls it makes together.
\<close>

fun weight :: "zip \<Rightarrow> promise \<Rightarrow> nat" where
  "weight zp (Reading jsonFile root visitedPaths pkgPath) = 2 ^ card (declaredPaths zp - visitedPaths)"
| "weight zp (Waiting pkgPath json ts) = sum_list (map (weight zp) ts)"
| "weight zp Fulfilled = 0"

lemma recurseEach_Inr:
  "recurseEach zp v ps = Inr ts \<Longrightarrow> ts = map (\<lambda>p. Reading (p @ ''library.json'') False v p) ps"
  by (induction ps arbitrary: ts)
    (auto simp: recurseDependencies_def split: option.splits sum.splits)

lemma weight_promiseAll:
  "weight zp (fst (promiseAll pkgPath json ts this)) \<le> sum_list (map (weight zp) ts)"
  by (simp add: promiseAll_def)

lemma weight_calls:
  assumes "m + k \<le> n"
  shows "k * 2 ^ m < (2::nat) ^ n"
proof -
  have "k < 2 ^ k" by (rule less_exp)
  then have "k * 2 ^ m < 2 ^ k * (2::nat) ^ m" by simp
  also have "\<dots> = 2 ^ (m + k)" by (simp add: power_add mult.commute)
  also have "\<dots> \<le> 2 ^ n" using assms by simp
  finally show ?thesis .
qed

lemma weight_readCompleted:
  assumes "readCompleted zp jsonFile root v pkgPath this = Inr (t', this')"
  shows "weight zp t' < 2 ^ card (declaredPaths zp - v)"
proof -
  from assms obtain s json where look: "map_of zp jsonFile = Some (Json s json)"
    by (auto simp: readCompleted_def split: option.splits file_content.splits)
  let ?paths = "map packagePathOf (json_preloadedDependencies json)"
  let ?v = "fst (markVisited v ?paths)" and ?ps = "snd (markVisited v ?paths)"
  from assms look obtain ts where each: "recurseEach zp ?v ?ps = Inr ts"
    by (auto simp: readCompleted_def split: sum.splits)
  from assms look each have "\<exists>this1. promiseAll pkgPath json ts this1 = (t', this')"
    by (auto simp: readCompleted_def)
  then obtain this1 where "promiseAll pkgPath json ts this1 = (t', this')" by blast
  then have t': "t' = fst (promiseAll pkgPath json ts this1)" by simp
  have "sum_list (map (weight zp) ts) = length ?ps * 2 ^ card (declaredPaths zp - ?v)"
    unfolding recurseEach_Inr [OF each] by (simp add: comp_def sum_list_triv)
  also have "\<dots> < 2 ^ card (declaredPaths zp - v)"
    using markVisited_measure [OF finite_declaredPaths declaredPaths_lookup [OF look], of v]
    by (intro weight_calls) simp
  finally show ?thesis using weight_promiseAll [of zp pkgPath json ts this1] t' by simp
qed

lemma weight_complete:
  "k < pendingReads t \<Longrightarrow> complete zp k t this = Inr (t', this') \<Longrightarrow> weight zp t' < weight zp t"
  "k < sum_list (map pendingReads ts) \<Longrightarrow> completeIn zp k ts this = Inr (ts', this') \<Longrightarrow>
     sum_list (map (weight zp) ts') < sum_list (map (weight zp) ts)"
proof (induction zp k t this and zp k ts this arbitrary: t' this' and ts' this'
    rule: complete_completeIn.induct)
  case (1 zp k jsonFile root visitedPaths pkgPath this)
  then show ?case using weight_readCompleted by simp
next
  case (2 zp k pkgPath json ts this)
  from 2(3) obtain ts1 this1 where c: "completeIn zp k ts this = Inr (ts1, this1)"
    and t': "t' = fst (promiseAll pkgPath json ts1 this1)"
    by (auto split: sum.splits)
  from 2(1) [OF _ c] 2(2) have "sum_list (map (weight zp) ts1) < sum_list (map (weight zp) ts)" by simp
  with weight_promiseAll [of zp pkgPath json ts1 this1] t' show ?case by simp
next
  case (3 zp k this)
  then show ?case by simp
next
  case (4 zp k this)
  then show ?case by simp
next
  case (5 zp k t ts this)
  show ?case
  proof (cases "k < pendingReads t")
    case True
    with 5(4) obtain t1 where c: "complete zp k t this = Inr (t1, this')" and ts': "ts' = t1 # ts"
      by (auto split: sum.splits)
    from 5(1) [OF True True c] ts' show ?thesis by simp
  next
    case False
    with 5(4) obtain ts1 where c: "completeIn zp (k - pendingReads t) ts this = Inr (ts1, this')"
      and ts': "ts' = t # ts1"
      by (auto split: sum.splits)
    from False 5(3) have "k - pendingReads t < sum_list (map pendingReads ts)" by simp
    from 5(2) [OF False this c] ts' show ?thesis by simp
  qed
qed

text \<open>
  The reads complete one at a time (the archive library delivers the content of an
  entry in a job of its own, and the promise callbacks that follow from it run before
  the next job), in an order that is the archive library's and the platform's:
  \<open>sched i\<close> chooses the read that completes as number \<open>i\<close>. The promise of the
  root call is fulfilled when no read is left, and rejected by the first completion
  that throws (the reads still in flight then have no effect on what \<^verbatim>\<open>init\<close> does).
\<close>

function awaitReads :: "zip \<Rightarrow> (nat \<Rightarrow> nat) \<Rightarrow> nat \<Rightarrow> promise \<Rightarrow> runner \<Rightarrow> error + runner" where
  "awaitReads zp sched i t this =
     (if pendingReads t = 0 then Inr this
      else case complete zp (sched i mod pendingReads t) t this of
             Inl e \<Rightarrow> Inl e
           | Inr (t', this') \<Rightarrow> awaitReads zp sched (Suc i) t' this')"
  by pat_completeness auto
termination
  apply (relation "measure (\<lambda>(zp, sched, i, t, this). weight zp t)")
   apply simp
  subgoal for zp sched i t this b x y
    using weight_complete(1) [of "sched i mod pendingReads t" t zp this x y] by auto
  done

declare awaitReads.simps [simp del]

text \<open>The call made by \<^verbatim>\<open>init\<close>: \<^verbatim>\<open>this.recurseDependencies('h5p.json', true)\<close>.\<close>

definition resolve :: "(nat \<Rightarrow> nat) \<Rightarrow> zip \<Rightarrow> error + runner" where
  "resolve sched zp =
     (case recurseDependencies zp ''h5p.json'' True {} [] of
        Inl e \<Rightarrow> Inl e
      | Inr t \<Rightarrow> awaitReads zp sched 0 t init_runner)"

text \<open>The recorded graph: package path and dependency list of every record, in order.\<close>

definition recorded :: "runner \<Rightarrow> (string \<times> string list) list" where
  "recorded this = map (\<lambda>d. (packagePath d, dependencies d)) (this_dependencies this)"

definition recordedEdges :: "runner \<Rightarrow> (string \<times> string) list" where
  "recordedEdges this = concat (map (\<lambda>(p, qs). map (Pair p) qs) (recorded this))"

subsection \<open>The topological sorter\<close>

text \<open>
  Modelled from the spec: the class \<^verbatim>\<open>Toposort\<close> of the imported package
  \<^verbatim>\<open>toposort-class\<close> is not part of the sources. A sorter holds the registrations
  made by \<^verbatim>\<open>add(item, deps)\<close>, in order; a node may be registered several times.
\<close>

type_synonym toposort = "(string \<times> string list) list"

text \<open>Modelled from the spec: \<^verbatim>\<open>add\<close> of \<^verbatim>\<open>Toposort\<close>, which registers a node with its dependency list.\<close>

definition toposort_add :: "toposort \<Rightarrow> string \<Rightarrow> string list \<Rightarrow> toposort" where
  "toposort_add t item deps = t @ [(item, deps)]"

text \<open>Modelled from the spec: the dependencies of a node, over all its registrations.\<close>

definition toposort_deps :: "toposort \<Rightarrow> string \<Rightarrow> string list" where
  "toposort_deps t n = concat (map snd (filter (\<lambda>r. fst r = n) t))"

text \<open>Modelled from the spec: the nodes of a sorter in first-discovery order (with repetitions).\<close>

definition toposort_nodes :: "toposort \<Rightarrow> string list" where
  "toposort_nodes t = concat (map (\<lambda>r. fst r # snd r) t)"

text \<open>Modelled from the spec: the frames of the stack of the sorter's traversal.\<close>

datatype frame = Visit string | Emit string

fun frame_node :: "frame \<Rightarrow> string" where
  "frame_node (Visit n) = n"
| "frame_node (Emit n) = n"

fun visits :: "frame list \<Rightarrow> string set" where
  "visits [] = {}"
| "visits (Visit n # st) = insert n (visits st)"
| "visits (Emit n # st) = visits st"

fun greys :: "frame list \<Rightarrow> string set" where
  "greys [] = {}"
| "greys (Visit n # st) = greys st"
| "greys (Emit n # st) = insert n (greys st)"

lemma visits_append: "visits (xs @ ys) = visits xs \<union> visits ys"
  by (induction xs rule: visits.induct) auto

lemma visits_map_Visit: "visits (map Visit ds) = set ds"
  by (induction ds) auto

lemma greys_append: "greys (xs @ ys) = greys xs \<union> greys ys"
  by (induction xs rule: greys.induct) auto

lemma greys_map_Visit: "greys (map Visit ds) = {}"
  by (induction ds) auto

lemma finite_visits: "finite (visits st)"
  by (induction st rule: visits.induct) auto

lemma toposort_deps_nodes: "set (toposort_deps t n) \<subseteq> set (toposort_nodes t)"
  by (auto simp: toposort_deps_def toposort_nodes_def)

lemma dfs_measure_enter:
  assumes "finite N" and "n \<notin> marked" and "set ds \<subseteq> N"
  shows "card ((N \<union> visits (map Visit ds @ Emit n # st)) - insert n marked)
       < card ((N \<union> visits (Visit n # st)) - marked)"
proof -
  have "(N \<union> visits (map Visit ds @ Emit n # st)) - insert n marked
      \<subset> (N \<union> visits (Visit n # st)) - marked"
    using assms by (auto simp: visits_append visits_map_Visit)
  then show ?thesis
    using assms(1) by (intro psubset_card_mono) (auto simp: finite_visits)
qed

text \<open>
  Modelled from the spec: the linear order of the Topological Sorter, a depth-first
  traversal from the nodes in first-discovery order. A node is marked when it is
  entered and placed once all its dependencies are done; an edge to a node already
  marked is not followed, which drops the back-edge of a cycle rather than failing.
  The traversal keeps its own stack: \<open>Visit n\<close> enters \<open>n\<close>, \<open>Emit n\<close> places it in front
  of the nodes placed so far.
\<close>

function dfs :: "toposort \<Rightarrow> frame list \<Rightarrow> string set \<Rightarrow> string list \<Rightarrow> string list" where
  "dfs t [] marked placed = placed"
| "dfs t (Visit n # st) marked placed =
     (if n \<in> marked then dfs t st marked placed
      else dfs t (map Visit (toposort_deps t n) @ Emit n # st) (insert n marked) placed)"
| "dfs t (Emit n # st) marked placed = dfs t st marked (n # placed)"
  by pat_completeness auto
termination
  apply (relation "inv_image (less_than <*lex*> less_than)
    (\<lambda>(t, st, marked, placed). (card ((set (toposort_nodes t) \<union> visits st) - marked), length st))")
     apply (intro wf_inv_image wf_lex_prod wf_less_than)
    apply simp_all
  subgoal for t n st marked
    using dfs_measure_enter [of "set (toposort_nodes t)" n marked "toposort_deps t n" st]
    by (simp add: toposort_deps_nodes)
  done

text \<open>
  Modelled from the spec: \<^verbatim>\<open>sort\<close> of \<^verbatim>\<open>Toposort\<close>. The source reverses its result
  to obtain the load order, so \<^verbatim>\<open>sort\<close> lists a node before its dependencies.
\<close>

definition toposort_sort :: "toposort \<Rightarrow> string list" where
  "toposort_sort t = dfs t (map Visit (toposort_nodes t)) {} []"

subsection \<open>setDependencies\<close>

text \<open>One round of the loop of \<^verbatim>\<open>setDependencies\<close>, the sorter threaded along.\<close>

definition registerDependency :: "dependency \<Rightarrow> runner \<times> toposort \<Rightarrow> runner \<times> toposort" where
  "registerDependency d = (\<lambda>(this, dependencySorter).
     (this\<lparr> this_packageFiles := objSet (packagePath d) [] (this_packageFiles this),
            this_cssDependencies := objSet (packagePath d) (preloadedCss d) (this_cssDependencies this),
            this_jsDependencies := objSet (packagePath d) (preloadedJs d) (this_jsDependencies this) \<rparr>,
      toposort_add dependencySorter (packagePath d) (dependencies d)))"

definition setDependencies :: "runner \<Rightarrow> runner" where
  "setDependencies this =
     (let (this', dependencySorter) = fold registerDependency (this_dependencies this) (this, [])
      in this'\<lparr> this_sortedDependencies := rev (toposort_sort dependencySorter) \<rparr>)"

text \<open>The position of an element, as \<^verbatim>\<open>indexOf\<close> counts it (the length when absent).\<close>

fun indexOf :: "'a list \<Rightarrow> 'a \<Rightarrow> nat" where
  "indexOf [] x = 0"
| "indexOf (y # ys) x = (if y = x then 0 else Suc (indexOf ys x))"

subsection \<open>replacePaths\<close>

text \<open>
  The regular expression \<^verbatim>\<open>/(url\(['"]?)([^"')]+)?(['"]?\))/g\<close>, matched at the start
  of a text: \<^verbatim>\<open>url(\<close>, an optional quote, an optional run of characters other than
  the two quotes and the closing parenthesis, an optional quote, and \<^verbatim>\<open>)\<close>. Each
  optional part is greedy, and no other choice can match where the greedy one fails:
  a shorter run is followed by a character of the run, and an opening quote left to
  the third group must be followed by \<^verbatim>\<open>)\<close>, in which case the greedy choice
  matches as well. The result holds the three groups (the second is \<open>None\<close> when it
  takes no part in the match) and the rest of the text.
\<close>

definition isQuote :: "char \<Rightarrow> bool" where
  "isQuote c = (c = CHR 0x27 \<or> c = CHR 0x22)"

definition isPathChar :: "char \<Rightarrow> bool" where
  "isPathChar c = (\<not> isQuote c \<and> c \<noteq> CHR '')'')"

fun optQuote :: "string \<Rightarrow> string \<times> string" where
  "optQuote [] = ([], [])"
| "optQuote (c # cs) = (if isQuote c then ([c], cs) else ([], c # cs))"

definition cssPathRegex :: "string \<Rightarrow> (string \<times> string option \<times> string \<times> string) option" where
  "cssPathRegex s =
     (if take 4 s = ''url('' then
        (let (q1, r1) = optQuote (drop 4 s);
             p2 = takeWhile isPathChar r1;
             (q2, r2) = optQuote (dropWhile isPathChar r1)
         in case r2 of
              [] \<Rightarrow> None
            | c # rest \<Rightarrow>
                if c = CHR '')''
                then Some (''url('' @ q1, if p2 = [] then None else Some p2, q2 @ '')'', rest)
                else None)
      else None)"

lemma optQuote_length: "length (snd (optQuote s)) \<le> length s"
  by (cases s) auto

lemma cssPathRegex_shorter:
  assumes "cssPathRegex s = Some (p1, p2, p3, rest)"
  shows "length rest < length s"
proof -
  obtain q1 r1 where o1: "optQuote (drop 4 s) = (q1, r1)" by (cases "optQuote (drop 4 s)")
  obtain q2 r2 where o2: "optQuote (dropWhile isPathChar r1) = (q2, r2)"
    by (cases "optQuote (dropWhile isPathChar r1)")
  from assms o1 o2 obtain c where r2: "r2 = c # rest"
    by (auto simp: cssPathRegex_def Let_def split: if_splits list.splits)
  have "length r1 \<le> length (drop 4 s)" using optQuote_length [of "drop 4 s"] o1 by simp
  moreover have "length r2 \<le> length (dropWhile isPathChar r1)"
    using optQuote_length [of "dropWhile isPathChar r1"] o2 by simp
  moreover have "length (dropWhile isPathChar r1) \<le> length r1" by (rule length_dropWhile_le)
  ultimately show ?thesis using r2 by simp
qed

text \<open>
  The pieces of a text as \<^verbatim>\<open>String.prototype.replace\<close> with the global expression
  goes through it: each match, from left to right, and the characters between the
  matches.
\<close>

datatype token = Lit char | UrlRef string "string option" string

function scan :: "string \<Rightarrow> token list" where
  "scan [] = []"
| "scan (c # cs) =
     (case cssPathRegex (c # cs) of
        None \<Rightarrow> Lit c # scan cs
      | Some (p1, p2, p3, rest) \<Rightarrow> UrlRef p1 p2 p3 # scan rest)"
  by pat_completeness auto
termination
  by (relation "measure length") (auto dest: cssPathRegex_shorter)

text \<open>The text of a piece: for a match, the argument \<^verbatim>\<open>match\<close> of the callback.\<close>

fun tokenText :: "token \<Rightarrow> string" where
  "tokenText (Lit c) = [c]"
| "tokenText (UrlRef p1 p2 p3) = p1 @ (case p2 of None \<Rightarrow> [] | Some s \<Rightarrow> s) @ p3"

text \<open>
  The callback of \<^verbatim>\<open>replacePaths\<close>. The resolution
  \<^verbatim>\<open>new URL(p2, new URL(dep, 'http://b.b/')).pathname.substring(1)\<close> is the platform's
  and is a parameter: \<open>pathname dep ref\<close> is the path, or \<open>None\<close> where a constructor
  throws. A group that took no part in the match is \<^verbatim>\<open>undefined\<close>, which the
  constructor reads as the text \<^verbatim>\<open>undefined\<close>. The value read from the file map replaces
  the path when it is truthy: an own value other than the empty string, or an
  inherited member of the object.
\<close>

definition rewriteRef ::
  "(string \<Rightarrow> string \<Rightarrow> string option) \<Rightarrow> string \<Rightarrow> (string \<times> resource) list \<Rightarrow>
   string \<Rightarrow> string option \<Rightarrow> string \<Rightarrow> string" where
  "rewriteRef pathname dep packageFiles p1 p2 p3 =
     (case pathname dep (case p2 of None \<Rightarrow> ''undefined'' | Some s \<Rightarrow> s) of
        None \<Rightarrow> tokenText (UrlRef p1 p2 p3)
      | Some path \<Rightarrow>
          (case objGet packageFiles path of
             Undefined \<Rightarrow> tokenText (UrlRef p1 p2 p3)
           | Inherited k \<Rightarrow> p1 @ inheritedText k @ p3
           | Own newUrl \<Rightarrow>
               if resource_string newUrl \<noteq> [] then p1 @ resource_string newUrl @ p3
               else tokenText (UrlRef p1 p2 p3)))"

fun rewriteToken ::
  "(string \<Rightarrow> string \<Rightarrow> string option) \<Rightarrow> string \<Rightarrow> (string \<times> resource) list \<Rightarrow> token \<Rightarrow> string" where
  "rewriteToken pathname dep packageFiles (Lit c) = [c]"
| "rewriteToken pathname dep packageFiles (UrlRef p1 p2 p3) = rewriteRef pathname dep packageFiles p1 p2 p3"

text \<open>
  \<^verbatim>\<open>replacePaths(dep, packageFiles)\<close>: \<open>packageFiles\<close> is the file map of one package,
  \<open>dep\<close> the path of the stylesheet in it. Without an own entry for \<open>dep\<close> the call of
  \<^verbatim>\<open>replace\<close> throws: \<^verbatim>\<open>undefined\<close> and the members of \<^verbatim>\<open>Object.prototype\<close> have no such
  method.
\<close>

definition replacePaths ::
  "(string \<Rightarrow> string \<Rightarrow> string option) \<Rightarrow> string \<Rightarrow> (string \<times> resource) list \<Rightarrow> error + string" where
  "replacePaths pathname dep packageFiles =
     (case objGet packageFiles dep of
        Own css \<Rightarrow> Inr (concat (map (rewriteToken pathname dep packageFiles) (scan (resource_string css))))
      | Inherited k \<Rightarrow> Inl StylesheetMissing
      | Undefined \<Rightarrow> Inl StylesheetMissing)"

text \<open>
  A reference for which the callback finds nothing: the resolution throws, or the read
  of the file map at the resolved path gives \<^verbatim>\<open>undefined\<close> or the empty string.
\<close>

fun unresolved ::
  "(string \<Rightarrow> string \<Rightarrow> string option) \<Rightarrow> string \<Rightarrow> (string \<times> resource) list \<Rightarrow> token \<Rightarrow> bool" where
  "unresolved pathname dep packageFiles (Lit c) = False"
| "unresolved pathname dep packageFiles (UrlRef p1 p2 p3) =
     (case pathname dep (case p2 of None \<Rightarrow> ''undefined'' | Some s \<Rightarrow> s) of
        None \<Rightarrow> True
      | Some path \<Rightarrow>
          (case objGet packageFiles path of
             Undefined \<Rightarrow> True
           | Inherited k \<Rightarrow> False
           | Own newUrl \<Rightarrow> resource_string newUrl = []))"

subsection \<open>The virtual asset store\<close>

text \<open>\<^verbatim>\<open>s.indexOf(pat) === 0\<close>, \<^verbatim>\<open>/pat/.test(s)\<close> for a literal \<open>pat\<close>, and \<^verbatim>\<open>s.replace(pat, '')\<close>.\<close>

fun startsWith :: "string \<Rightarrow> string \<Rightarrow> bool" where
  "startsWith s [] = True"
| "startsWith [] (p # ps) = False"
| "startsWith (c # cs) (p # ps) = (c = p \<and> startsWith cs ps)"

fun containsText :: "string \<Rightarrow> string \<Rightarrow> bool" where
  "containsText [] pat = (pat = [])"
| "containsText (c # cs) pat = (startsWith (c # cs) pat \<or> containsText cs pat)"

fun removeFirst :: "string \<Rightarrow> string \<Rightarrow> string" where
  "removeFirst pat [] = []"
| "removeFirst pat (c # cs) =
     (if startsWith (c # cs) pat then drop (length pat) (c # cs) else c # removeFirst pat cs)"

text \<open>
  \<^verbatim>\<open>URL.createObjectURL(new Blob(...))\<close>, as \<^verbatim>\<open>createBlobUrl\<close> and
  \<^verbatim>\<open>processCssDependencies\<close> call it: a fresh URL for the content.
\<close>

definition createObjectURL :: "string \<Rightarrow> runner \<Rightarrow> resource \<times> runner" where
  "createObjectURL content this =
     (BlobUrl (''blob:'' @ decimal (length (this_blobs this))),
      this\<lparr> this_blobs := this_blobs this @ [content] \<rparr>)"

text \<open>A step that may throw, over the elements of a list; the first error ends the loop.\<close>

fun forEach :: "('a \<Rightarrow> 's \<Rightarrow> error + 's) \<Rightarrow> 'a list \<Rightarrow> 's \<Rightarrow> error + 's" where
  "forEach f [] s = Inr s"
| "forEach f (x # xs) s = (case f x s of Inl e \<Rightarrow> Inl e | Inr s' \<Rightarrow> forEach f xs s')"

text \<open>\<^verbatim>\<open>processContent(file)\<close>.\<close>

definition processContent :: "string \<times> file_content \<Rightarrow> runner \<Rightarrow> runner" where
  "processContent file this =
     (let fileName = removeFirst ''content/'' (fst file) in
      if fileName = ''content.json'' then this\<lparr> this_contentJson := textOf (snd file) \<rparr>
      else (let (url, this') = createObjectURL (textOf (snd file)) this
            in this'\<lparr> this_contentPaths := objSet fileName url (this_contentPaths this') \<rparr>))"

text \<open>
  The assignment \<^verbatim>\<open>this.packageFiles[packagePath][fileName] = value\<close>. It throws when
  \<^verbatim>\<open>this.packageFiles[packagePath]\<close> is undefined; a package path ends with \<^verbatim>\<open>/\<close> and
  is never the name of an inherited member, which the model treats as an error too.
\<close>

definition setPackageFile :: "string \<Rightarrow> string \<Rightarrow> resource \<Rightarrow> runner \<Rightarrow> error + runner" where
  "setPackageFile pkgPath fileName v this =
     (case objGet (this_packageFiles this) pkgPath of
        Own files \<Rightarrow>
          Inr (this\<lparr> this_packageFiles := objSet pkgPath (objSet fileName v files) (this_packageFiles this) \<rparr>)
      | Inherited k \<Rightarrow> Inl PackageUnknown
      | Undefined \<Rightarrow> Inl PackageUnknown)"

text \<open>The list that an object keyed by package path holds for a package.\<close>

definition packageList :: "(string \<times> string list) list \<Rightarrow> string \<Rightarrow> error + string list" where
  "packageList obj pkgPath =
     (case objGet obj pkgPath of
        Own xs \<Rightarrow> Inr xs
      | Inherited k \<Rightarrow> Inl PackageUnknown
      | Undefined \<Rightarrow> Inl PackageUnknown)"

text \<open>\<^verbatim>\<open>processPackageFile(file, packagePath)\<close>.\<close>

definition processPackageFile :: "string \<Rightarrow> string \<times> file_content \<Rightarrow> runner \<Rightarrow> error + runner" where
  "processPackageFile pkgPath file this =
     (let fileName = removeFirst pkgPath (fst file) in
      case packageList (this_jsDependencies this) pkgPath of
        Inl e \<Rightarrow> Inl e
      | Inr js \<Rightarrow>
          (case packageList (this_cssDependencies this) pkgPath of
             Inl e \<Rightarrow> Inl e
           | Inr css \<Rightarrow>
               if fileName \<in> set js then
                 (let this1 = this\<lparr> this_loadedJs := objSet (fst file) True (this_loadedJs this) \<rparr>;
                      (url, this2) = createObjectURL (textOf (snd file)) this1
                  in setPackageFile pkgPath fileName url this2)
               else if fileName \<in> set css then
                 setPackageFile pkgPath fileName (RawText (textOf (snd file)))
                   (this\<lparr> this_loadedCss := objSet (fst file) True (this_loadedCss this) \<rparr>)
               else
                 (let (url, this1) = createObjectURL (textOf (snd file)) this
                  in setPackageFile pkgPath fileName url this1)))"

text \<open>
  \<^verbatim>\<open>processFiles()\<close>: the entries whose name contains \<^verbatim>\<open>content/\<close>, then, for every key of
  \<^verbatim>\<open>this.packageFiles\<close>, the entries whose name contains the key. The reads are
  asynchronous; the model completes them in this order.
\<close>

definition processFiles :: "zip \<Rightarrow> runner \<Rightarrow> error + runner" where
  "processFiles zp this =
     forEach (\<lambda>pkgPath. forEach (processPackageFile pkgPath) (filter (\<lambda>file. containsText (fst file) pkgPath) zp))
       (map fst (this_packageFiles this))
       (fold processContent (filter (\<lambda>file. containsText (fst file) ''content/'') zp) this)"

subsection \<open>processCssDependencies and processJsDependencies\<close>

text \<open>
  The inner callback of \<^verbatim>\<open>processCssDependencies\<close>, for the stylesheet \<open>cssDep\<close> of the
  package \<open>dep\<close>, with the \<^verbatim>\<open>fileMap\<close> under construction: the blob URL of the rewritten
  text goes to \<^verbatim>\<open>fileMap\<close>, and \<^verbatim>\<open>this.packageFiles[dependency][cssDep] = css\<close> stores the
  rewritten text.
\<close>

definition processCssDep ::
  "(string \<Rightarrow> string \<Rightarrow> string option) \<Rightarrow> string \<Rightarrow> string \<Rightarrow>
   (string \<times> resource property) list \<times> runner \<Rightarrow> error + (string \<times> resource property) list \<times> runner" where
  "processCssDep pathname dep cssDep = (\<lambda>(fmap, this).
     case objGet (this_packageFiles this) dep of
       Own files \<Rightarrow>
         (case replacePaths pathname cssDep files of
            Inl e \<Rightarrow> Inl e
          | Inr css \<Rightarrow>
              (let (url, this1) = createObjectURL css this
               in case setPackageFile dep cssDep (RawText css) this1 of
                    Inl e \<Rightarrow> Inl e
                  | Inr this2 \<Rightarrow> Inr (objSet cssDep (Own url) fmap, this2)))
     | Inherited k \<Rightarrow> Inl PackageUnknown
     | Undefined \<Rightarrow> Inl PackageUnknown)"

text \<open>The outer callback: one element of the new \<^verbatim>\<open>cssDependencies\<close> array.\<close>

definition processCssPackage ::
  "(string \<Rightarrow> string \<Rightarrow> string option) \<Rightarrow> string \<Rightarrow> dep_map list \<times> runner \<Rightarrow> error + dep_map list \<times> runner" where
  "processCssPackage pathname dep = (\<lambda>(maps, this).
     case packageList (this_cssDependencies this) dep of
       Inl e \<Rightarrow> Inl e
     | Inr cssDeps \<Rightarrow>
         (case forEach (processCssDep pathname dep) cssDeps ([], this) of
            Inl e \<Rightarrow> Inl e
          | Inr (fmap, this') \<Rightarrow> Inr (maps @ [\<lparr> dependency = dep, fileMap = fmap \<rparr>], this')))"

definition processCssDependencies :: "(string \<Rightarrow> string \<Rightarrow> string option) \<Rightarrow> runner \<Rightarrow> error + runner" where
  "processCssDependencies pathname this =
     (case forEach (processCssPackage pathname) (this_sortedDependencies this) ([], this) of
        Inl e \<Rightarrow> Inl e
      | Inr (maps, this') \<Rightarrow> Inr (this'\<lparr> this_cssLoad := maps \<rparr>))"

text \<open>
  \<^verbatim>\<open>processJsDependencies()\<close>: \<^verbatim>\<open>fileMap[jsDep] = this.packageFiles[dependency][jsDep]\<close>.
  As in \<open>setPackageFile\<close>, a package without a file map is an error.
\<close>

definition processJsDep ::
  "runner \<Rightarrow> string \<Rightarrow> string \<Rightarrow> (string \<times> resource property) list \<Rightarrow> error + (string \<times> resource property) list" where
  "processJsDep this dep jsDep fmap =
     (case objGet (this_packageFiles this) dep of
        Own files \<Rightarrow> Inr (objSet jsDep (objGet files jsDep) fmap)
      | Inherited k \<Rightarrow> Inl PackageUnknown
      | Undefined \<Rightarrow> Inl PackageUnknown)"

definition processJsPackage :: "runner \<Rightarrow> string \<Rightarrow> dep_map list \<Rightarrow> error + dep_map list" where
  "processJsPackage this dep maps =
     (case packageList (this_jsDependencies this) dep of
        Inl e \<Rightarrow> Inl e
      | Inr jsDeps \<Rightarrow>
          (case forEach (processJsDep this dep) jsDeps [] of
             Inl e \<Rightarrow> Inl e
           | Inr fmap \<Rightarrow> Inr (maps @ [\<lparr> dependency = dep, fileMap = fmap \<rparr>])))"

definition processJsDependencies :: "runner \<Rightarrow> error + runner" where
  "processJsDependencies this =
     (case forEach (processJsPackage this) (this_sortedDependencies this) [] of
        Inl e \<Rightarrow> Inl e
      | Inr maps \<Rightarrow> Inr (this\<lparr> this_jsLoad := maps \<rparr>))"

subsection \<open>init\<close>

text \<open>
  The promise chain of \<^verbatim>\<open>init\<close> from the opened archive up to the call of \<^verbatim>\<open>initH5P\<close>:
  a rejection of any step skips the steps after it. The order in which the reads of the
  descriptors complete is the parameter \<open>sched\<close>.
\<close>

definition prepare :: "(string \<Rightarrow> string \<Rightarrow> string option) \<Rightarrow> (nat \<Rightarrow> nat) \<Rightarrow> zip \<Rightarrow> error + runner" where
  "prepare pathname sched zp =
     (case resolve sched zp of
        Inl e \<Rightarrow> Inl e
      | Inr this1 \<Rightarrow>
          (case processFiles zp (setDependencies this1) of
             Inl e \<Rightarrow> Inl e
           | Inr this2 \<Rightarrow>
               (case processCssDependencies pathname this2 of
                  Inl e \<Rightarrow> Inl e
                | Inr this3 \<Rightarrow> processJsDependencies this3)))"

subsection \<open>The ordered loader\<close>

text \<open>
  \<^verbatim>\<open>loadDependencies\<close> chains one promise per tier: the callback of a tier calls
  \<^verbatim>\<open>scriptLoader\<close> for every value of its \<^verbatim>\<open>fileMap\<close>, and the next callback runs once
  \<^verbatim>\<open>Promise.all\<close> of these calls is resolved. The relation below follows the events
  that the chain and the document produce. A load is a call of \<^verbatim>\<open>scriptLoader\<close>: the
  kind of the plan, the index of the tier and the key of the file in the tier.
\<close>

datatype kind = Style | Script

type_synonym load = "kind \<times> nat \<times> string"

datatype event =
  Started load string   \<comment> \<open>\<^verbatim>\<open>scriptLoader(url, css)\<close> is called and adds its element for \<open>url\<close>\<close>
  | Loaded load         \<comment> \<open>the promise of the call is resolved\<close>
  | Failed load         \<comment> \<open>the promise of the call is rejected (the \<^verbatim>\<open>error\<close> event of a script)\<close>
  | Initialised         \<comment> \<open>\<^verbatim>\<open>H5P.init()\<close> is called\<close>

text \<open>The text that a value of a \<^verbatim>\<open>fileMap\<close> becomes as \<^verbatim>\<open>src\<close> or \<^verbatim>\<open>href\<close>.\<close>

fun urlText :: "resource property \<Rightarrow> string" where
  "urlText (Own r) = resource_string r"
| "urlText (Inherited k) = inheritedText k"
| "urlText Undefined = ''undefined''"

definition tierLoads :: "kind \<Rightarrow> dep_map list \<Rightarrow> nat \<Rightarrow> (load \<times> string) list" where
  "tierLoads k plan i = map (\<lambda>(key, v). ((k, i, key), urlText v)) (fileMap (plan ! i))"

definition loadsOf :: "kind \<Rightarrow> dep_map list \<Rightarrow> nat \<Rightarrow> load list" where
  "loadsOf k plan i = map fst (tierLoads k plan i)"

text \<open>
  The state of the chain: the plan whose tiers are being loaded, the index of the
  next tier, the scripts of the current tier whose promise is still pending, whether
  the chain is rejected, and whether \<^verbatim>\<open>H5P.init()\<close> has been called.
\<close>

record loader =
  phase :: kind
  tier :: nat
  pending :: "load list"
  rejected :: bool
  initialised :: bool

definition loader_start :: loader where
  "loader_start = \<lparr> phase = Style, tier = 0, pending = [], rejected = False, initialised = False \<rparr>"

text \<open>
  One step, with the events it produces. For a stylesheet, \<^verbatim>\<open>scriptLoader\<close> resolves its
  promise at once (the source cannot detect the loading of a stylesheet), so a tier of
  styles is done when its callback returns. For a script the promise is settled by
  the \<^verbatim>\<open>load\<close> or \<^verbatim>\<open>error\<close> event of the element. The scripts start once the chain of
  the styles is resolved, and \<^verbatim>\<open>H5P.init()\<close> is called once the chain of the scripts is.
  A rejection leaves the callbacks of the later tiers and the call of \<^verbatim>\<open>H5P.init()\<close>
  unreached.
\<close>

inductive loader_step :: "dep_map list \<Rightarrow> dep_map list \<Rightarrow> loader \<Rightarrow> event list \<Rightarrow> loader \<Rightarrow> bool"
  for css js :: "dep_map list" where
  style_tier:
    "phase s = Style \<Longrightarrow> tier s < length css \<Longrightarrow>
     loader_step css js s
       (concat (map (\<lambda>(l, url). [Started l url, Loaded l]) (tierLoads Style css (tier s))))
       (s\<lparr> tier := Suc (tier s) \<rparr>)"
| styles_done:
    "phase s = Style \<Longrightarrow> tier s = length css \<Longrightarrow>
     loader_step css js s [] (s\<lparr> phase := Script, tier := 0 \<rparr>)"
| script_tier:
    "phase s = Script \<Longrightarrow> \<not> rejected s \<Longrightarrow> pending s = [] \<Longrightarrow> tier s < length js \<Longrightarrow>
     loader_step css js s
       (map (\<lambda>(l, url). Started l url) (tierLoads Script js (tier s)))
       (s\<lparr> tier := Suc (tier s), pending := loadsOf Script js (tier s) \<rparr>)"
| load_event:
    "l \<in> set (pending s) \<Longrightarrow>
     loader_step css js s [Loaded l] (s\<lparr> pending := remove1 l (pending s) \<rparr>)"
| error_event:
    "l \<in> set (pending s) \<Longrightarrow>
     loader_step css js s [Failed l] (s\<lparr> pending := remove1 l (pending s), rejected := True \<rparr>)"
| init_call:
    "phase s = Script \<Longrightarrow> \<not> rejected s \<Longrightarrow> \<not> initialised s \<Longrightarrow> pending s = [] \<Longrightarrow>
     tier s = length js \<Longrightarrow>
     loader_step css js s [Initialised] (s\<lparr> initialised := True \<rparr>)"

text \<open>The events of \<^verbatim>\<open>initH5P\<close> so far, and the state reached.\<close>

inductive loader_run :: "dep_map list \<Rightarrow> dep_map list \<Rightarrow> event list \<Rightarrow> loader \<Rightarrow> bool"
  for css js :: "dep_map list" where
  run_start: "loader_run css js [] loader_start"
| run_step: "loader_run css js tr s \<Longrightarrow> loader_step css js s evs s' \<Longrightarrow> loader_run css js (tr @ evs) s'"

text \<open>
  The events of a whole \<^verbatim>\<open>init\<close>: none before \<^verbatim>\<open>initH5P\<close> is called, which happens only
  when the chain of the preparation is resolved, in whatever order the reads of the
  descriptors complete.
\<close>

inductive init_run :: "(string \<Rightarrow> string \<Rightarrow> string option) \<Rightarrow> zip \<Rightarrow> event list \<Rightarrow> bool"
  for pathname :: "string \<Rightarrow> string \<Rightarrow> string option" and zp :: zip where
  not_started: "init_run pathname zp []"
| loading:
    "prepare pathname sched zp = Inr this \<Longrightarrow> loader_run (this_cssLoad this) (this_jsLoad this) tr s \<Longrightarrow>
     init_run pathname zp tr"

subsection \<open>The user data shim\<close>

text \<open>
  The part of the runner and of its surroundings that \<^verbatim>\<open>H5P.setUserData\<close> touches:
  \<^verbatim>\<open>self.data\<close>, an object of objects keyed by \<^verbatim>\<open>subContentId\<close> and \<^verbatim>\<open>dataId\<close> (a
  stored \<open>None\<close> is \<^verbatim>\<open>undefined\<close>), the number of calls of \<^verbatim>\<open>stateUpdated\<close>, and the
  calls of error callbacks, each with the callback and the error it was given.
\<close>

record ('e, 'f) shim =
  self_data :: "(string \<times> (string \<times> string option) list) list"
  stateUpdated :: nat
  errorCalls :: "('f \<times> 'e) list"

text \<open>
  The fourth argument of \<^verbatim>\<open>setUserData\<close> after destructuring: \<^verbatim>\<open>subContentId\<close> (the
  default is 0) and \<^verbatim>\<open>errorCallback\<close>, which is \<open>Some f\<close> when it is a function
  (\<^verbatim>\<open>isFunction\<close>) and \<open>None\<close> otherwise (the default is null).
\<close>

record 'f user_data_options =
  subContentId :: string
  errorCallback :: "'f option"

text \<open>\<^verbatim>\<open>set(self.data, [subContentId, dataId], data)\<close> of lodash.\<close>

definition lodash_set ::
  "(string \<times> (string \<times> 'v) list) list \<Rightarrow> string \<Rightarrow> string \<Rightarrow> 'v \<Rightarrow> (string \<times> (string \<times> 'v) list) list" where
  "lodash_set obj k1 k2 v =
     AList.update k1 (AList.update k2 v (case map_of obj k1 of None \<Rightarrow> [] | Some inner \<Rightarrow> inner)) obj"

text \<open>
  \<^verbatim>\<open>H5P.setUserData(contentId, dataId, data, options)\<close>. \<^verbatim>\<open>JSON.stringify\<close> is the
  platform's and is a parameter: it throws an error (\<open>Inl\<close>) or returns a text, or
  \<^verbatim>\<open>undefined\<close> (\<open>Inr None\<close>).
\<close>

definition setUserData ::
  "('a \<Rightarrow> 'e + string option) \<Rightarrow> string \<Rightarrow> string \<Rightarrow> 'a \<Rightarrow> 'f user_data_options \<Rightarrow>
   ('e, 'f) shim \<Rightarrow> ('e, 'f) shim" where
  "setUserData stringify contentId dataId data_arg options self =
     (case stringify data_arg of
        Inl err \<Rightarrow>
          (case errorCallback options of
             Some f \<Rightarrow> self\<lparr> errorCalls := errorCalls self @ [(f, err)] \<rparr>
           | None \<Rightarrow> self)
      | Inr serialized \<Rightarrow>
          self\<lparr> self_data := lodash_set (self_data self) (subContentId options) dataId serialized,
                stateUpdated := Suc (stateUpdated self) \<rparr>)"

subsection \<open>The xAPI event hook\<close>

text \<open>
  The verb tables of the module. \<^verbatim>\<open>debounceDelay\<close> and \<^verbatim>\<open>maxDelay\<close> are in seconds.
\<close>

definition doNotLogVerbs :: "string list" where
  "doNotLogVerbs = [''downloaded'', ''copied'', ''accessed-reuse'', ''accessed-embed'',
     ''accessed-copyright'']"

definition debounceVerbs :: "string list" where
  "debounceVerbs = [''answered'', ''interacted'']"

definition debounceDelay :: int where
  "debounceDelay = 5"

definition maxDelay :: int where
  "maxDelay = 30"

text \<open>
  \<^verbatim>\<open>doNotLogVerbMap\<close>, filled by the loop at the top of the module. \<^verbatim>\<open>XAPIVerbMap\<close> is
  imported from \<^verbatim>\<open>../xAPI/xAPIVocabulary\<close> and is a parameter: the property key that
  \<^verbatim>\<open>XAPIVerbMap[name]\<close> gives.
\<close>

definition doNotLogVerbMap :: "(string \<Rightarrow> string) \<Rightarrow> (string \<times> bool) list" where
  "doNotLogVerbMap XAPIVerbMap = fold (\<lambda>name obj. objSet (XAPIVerbMap name) True obj) doNotLogVerbs []"

text \<open>
  An xAPI statement: the \<^verbatim>\<open>id\<close> of its verb, and the rest of it as a text.
\<close>

record statement =
  verb_id :: string
  content :: string

text \<open>
  Modelled from the spec: the options of a debounced function. The function
  \<^verbatim>\<open>debounce\<close> is the one of lodash, which is not among the sources; the spec (sections 6
  and 9) asks for a timer state machine per verb with a fixed delay that fires once
  immediately, collapses the calls in between and fires at most once more when the
  window ends. The state machine below is the one of lodash, with the delay, the
  leading and trailing edge and the longest wait as options.
\<close>

record debounce_options =
  wait :: int
  leading :: bool
  maxWait :: "int option"
  trailing :: bool

text \<open>
  Modelled from the spec: the state of a debounced function, namely the argument and
  the time of the last call, the time of the last invocation of the function that is
  debounced, and the time at which the pending timeout is due, if there is one.
  Times are in milliseconds.
\<close>

record 'a debounced =
  lastArgs :: "'a option"
  lastCallTime :: "int option"
  lastInvokeTime :: int
  timerId :: "int option"

text \<open>Modelled from the spec: the state of a debounced function that was never called.\<close>

definition debounce :: "'a debounced" where
  "debounce = \<lparr> lastArgs = None, lastCallTime = None, lastInvokeTime = 0, timerId = None \<rparr>"

text \<open>
  Modelled from the spec: whether a call or an expired timeout at \<open>time\<close> is at an edge
  of the window: there was no call before, the last call is at least the delay ago
  (or the clock went back), or the last invocation is at least the longest wait ago.
\<close>

definition shouldInvoke :: "debounce_options \<Rightarrow> 'a debounced \<Rightarrow> int \<Rightarrow> bool" where
  "shouldInvoke opts d time =
     (case lastCallTime d of
        None \<Rightarrow> True
      | Some called \<Rightarrow>
          wait opts \<le> time - called \<or> time - called < 0 \<or>
          (case maxWait opts of None \<Rightarrow> False | Some m \<Rightarrow> m \<le> time - lastInvokeTime d))"

text \<open>
  Modelled from the spec: the invocation of the function that is debounced, with the
  argument of the last call; the result is the new state and the argument the function
  is invoked with.
\<close>

definition invokeFunc :: "'a debounced \<Rightarrow> int \<Rightarrow> 'a debounced \<times> 'a option" where
  "invokeFunc d time = (d\<lparr> lastArgs := None, lastInvokeTime := time \<rparr>, lastArgs d)"

text \<open>
  Modelled from the spec: the leading edge, where the timeout of the window is set and
  the function fires immediately if the option says so.
\<close>

definition leadingEdge :: "debounce_options \<Rightarrow> 'a debounced \<Rightarrow> int \<Rightarrow> 'a debounced \<times> 'a option" where
  "leadingEdge opts d time =
     (if leading opts
      then invokeFunc (d\<lparr> lastInvokeTime := time, timerId := Some (time + wait opts) \<rparr>) time
      else (d\<lparr> lastInvokeTime := time, timerId := Some (time + wait opts) \<rparr>, None))"

text \<open>
  Modelled from the spec: the trailing edge, where the function fires once more if it
  was called since its last invocation.
\<close>

definition trailingEdge :: "debounce_options \<Rightarrow> 'a debounced \<Rightarrow> int \<Rightarrow> 'a debounced \<times> 'a option" where
  "trailingEdge opts d time =
     (if trailing opts \<and> lastArgs d \<noteq> None
      then invokeFunc (d\<lparr> timerId := None \<rparr>) time
      else (d\<lparr> timerId := None, lastArgs := None \<rparr>, None))"

text \<open>
  Modelled from the spec: the time left of the window at \<open>time\<close>, counted from the last
  call and bounded by the longest wait since the last invocation. (It is asked for
  only after a call.)
\<close>

definition remainingWait :: "debounce_options \<Rightarrow> 'a debounced \<Rightarrow> int \<Rightarrow> int" where
  "remainingWait opts d time =
     (case lastCallTime d of
        None \<Rightarrow> 0
      | Some called \<Rightarrow>
          (case maxWait opts of
             None \<Rightarrow> wait opts - (time - called)
           | Some m \<Rightarrow> min (wait opts - (time - called)) (m - (time - lastInvokeTime d))))"

text \<open>
  Modelled from the spec: the callback of the timeout, run at \<open>time\<close>: at the end of the
  window it is the trailing edge, otherwise the timeout is set again for the rest of
  the window.
\<close>

definition timerExpired :: "debounce_options \<Rightarrow> 'a debounced \<Rightarrow> int \<Rightarrow> 'a debounced \<times> 'a option" where
  "timerExpired opts d time =
     (if shouldInvoke opts d time then trailingEdge opts d time
      else (d\<lparr> timerId := Some (time + remainingWait opts d time) \<rparr>, None))"

text \<open>
  Modelled from the spec: a call of the debounced function at \<open>time\<close> with the argument
  \<open>args\<close>. The call is kept as the last one; at an edge without a pending timeout it is
  the leading edge, at an edge reached by the longest wait the function fires and the
  timeout is set anew, and otherwise the call is collapsed into the window.
\<close>

definition debounced :: "debounce_options \<Rightarrow> 'a debounced \<Rightarrow> int \<Rightarrow> 'a \<Rightarrow> 'a debounced \<times> 'a option" where
  "debounced opts d time args =
     (if shouldInvoke opts d time \<and> timerId d = None
      then leadingEdge opts (d\<lparr> lastArgs := Some args, lastCallTime := Some time \<rparr>) time
      else if shouldInvoke opts d time \<and> maxWait opts \<noteq> None
      then invokeFunc (d\<lparr> lastArgs := Some args, lastCallTime := Some time,
                           timerId := Some (time + wait opts) \<rparr>) time
      else if timerId d = None
      then (d\<lparr> lastArgs := Some args, lastCallTime := Some time,
                timerId := Some (time + wait opts) \<rparr>, None)
      else (d\<lparr> lastArgs := Some args, lastCallTime := Some time \<rparr>, None))"

text \<open>
  The options that \<^verbatim>\<open>shimH5P\<close> passes: \<^verbatim>\<open>debounceDelay * 1000\<close> and
  \<^verbatim>\<open>{ leading: true, maxWait: maxDelay * 1000 }\<close>; the trailing edge is on by default, and
  the longest wait is not shorter than the delay.
\<close>

definition handlerOptions :: debounce_options where
  "handlerOptions = \<lparr> wait = debounceDelay * 1000, leading = True,
     maxWait = Some (max (maxDelay * 1000) (debounceDelay * 1000)), trailing = True \<rparr>"

text \<open>
  What the hook works on: \<^verbatim>\<open>debouncedHandlers\<close> (one debounced function per verb id),
  the calls of \<^verbatim>\<open>contentWindow.xAPI.sendStatement\<close> so far, each with its time and its
  statement, and the time of the last thing that happened.
\<close>

record hook =
  debouncedHandlers :: "(string \<times> statement debounced) list"
  sent :: "(int \<times> statement) list"
  clock :: int

text \<open>
  The part of \<^verbatim>\<open>shimH5P\<close> that fills \<^verbatim>\<open>debouncedHandlers\<close>, at the time \<open>now\<close>. (A
  function stored under \<^verbatim>\<open>__proto__\<close> would become the prototype of the object instead
  of being ignored; the model is of a vocabulary in which no verb has that id.)
\<close>

definition shimH5P :: "(string \<Rightarrow> string) \<Rightarrow> int \<Rightarrow> hook" where
  "shimH5P XAPIVerbMap now =
     \<lparr> debouncedHandlers = fold (\<lambda>name obj. objSet (XAPIVerbMap name) debounce obj) debounceVerbs [],
       sent = [], clock = now \<rparr>"

text \<open>
  The invocation of a debounced handler, if any: \<^verbatim>\<open>contentWindow.xAPI.sendStatement\<close> is
  called with the statement.
\<close>

definition sendStatement :: "int \<Rightarrow> statement option \<Rightarrow> hook \<Rightarrow> hook" where
  "sendStatement time fired h =
     (case fired of
        None \<Rightarrow> h
      | Some st \<Rightarrow> h\<lparr> sent := sent h @ [(time, st)] \<rparr>)"

text \<open>
  The listener that \<^verbatim>\<open>shimH5P\<close> registers for \<^verbatim>\<open>xAPI\<close> events, called at \<open>time\<close> with the
  statement of the event; \<open>xAPI\<close> tells whether \<^verbatim>\<open>contentWindow.xAPI\<close> is set. Both tables
  are plain objects: an id that names a member of \<^verbatim>\<open>Object.prototype\<close> is found in
  \<^verbatim>\<open>doNotLogVerbMap\<close>, and nothing is sent.
\<close>

definition xAPI_listener :: "(string \<Rightarrow> string) \<Rightarrow> bool \<Rightarrow> int \<Rightarrow> statement \<Rightarrow> hook \<Rightarrow> hook" where
  "xAPI_listener XAPIVerbMap xAPI time st h =
     (if \<not> xAPI then h
      else case objGet (doNotLogVerbMap XAPIVerbMap) (verb_id st) of
             Own b \<Rightarrow> h
           | Inherited k \<Rightarrow> h
           | Undefined \<Rightarrow>
               (case objGet (debouncedHandlers h) (verb_id st) of
                  Own d \<Rightarrow>
                    sendStatement time (snd (debounced handlerOptions d time st))
                      (h\<lparr> debouncedHandlers :=
                           AList.update (verb_id st) (fst (debounced handlerOptions d time st))
                             (debouncedHandlers h) \<rparr>)
                | Inherited k \<Rightarrow> h
                | Undefined \<Rightarrow> sendStatement time (Some st) h))"

text \<open>
  What happens to the hook: the runtime dispatches an xAPI event with a statement, or
  the platform runs the timeout of the handler of a verb id; each has its time.
\<close>

datatype happening = Dispatch int statement | Timeout int string

text \<open>
  One thing that happens; \<open>None\<close> when it cannot happen: the clock does not go back,
  and a timeout runs only if it is pending and due.
\<close>

fun xAPI_step :: "(string \<Rightarrow> string) \<Rightarrow> bool \<Rightarrow> hook \<Rightarrow> happening \<Rightarrow> hook option" where
  "xAPI_step XAPIVerbMap xAPI h (Dispatch time st) =
     (if time < clock h then None
      else Some (xAPI_listener XAPIVerbMap xAPI time st (h\<lparr> clock := time \<rparr>)))"
| "xAPI_step XAPIVerbMap xAPI h (Timeout time k) =
     (case map_of (debouncedHandlers h) k of
        None \<Rightarrow> None
      | Some d \<Rightarrow>
          (case timerId d of
             None \<Rightarrow> None
           | Some due \<Rightarrow>
               if time < due \<or> time < clock h then None
               else Some (sendStatement time (snd (timerExpired handlerOptions d time))
                            (h\<lparr> debouncedHandlers :=
                                 AList.update k (fst (timerExpired handlerOptions d time))
                                   (debouncedHandlers h),
                               clock := time \<rparr>))))"

fun xAPI_run :: "(string \<Rightarrow> string) \<Rightarrow> bool \<Rightarrow> hook \<Rightarrow> happening list \<Rightarrow> hook option" where
  "xAPI_run XAPIVerbMap xAPI h [] = Some h"
| "xAPI_run XAPIVerbMap xAPI h (x # xs) =
     (case xAPI_step XAPIVerbMap xAPI h x of
        None \<Rightarrow> None
      | Some h' \<Rightarrow> xAPI_run XAPIVerbMap xAPI h' xs)"

text \<open>The events dispatched among the things that happened, in order.\<close>

fun dispatched :: "happening list \<Rightarrow> (int \<times> statement) list" where
  "dispatched [] = []"
| "dispatched (Dispatch time st # xs) = (time, st) # dispatched xs"
| "dispatched (Timeout time k # xs) = dispatched xs"

subsection \<open>Predicates on the load order\<close>

text \<open>The edges of a sorter: \<open>(p, q)\<close> when \<open>q\<close> is registered as a dependency of \<open>p\<close>.\<close>

definition toposort_edges :: "toposort \<Rightarrow> (string \<times> string) set" where
  "toposort_edges t = {(p, q). q \<in> set (toposort_deps t p)}"

text \<open>
  The nodes waiting on the stack of the traversal to be placed, the order in which
  they were entered, and three conditions on a state of the traversal: every node
  placed has its dependencies placed behind it; every frame is reachable from every
  node that waits below it; the dependencies of a waiting node are marked or are to
  be visited above it.
\<close>

fun emitted :: "frame list \<Rightarrow> string list" where
  "emitted [] = []"
| "emitted (Visit n # st) = emitted st"
| "emitted (Emit n # st) = n # emitted st"

fun closed :: "toposort \<Rightarrow> string list \<Rightarrow> bool" where
  "closed t [] = True"
| "closed t (p # ps) = (set (toposort_deps t p) \<subseteq> set ps \<and> closed t ps)"

fun reach_ok :: "toposort \<Rightarrow> frame list \<Rightarrow> bool" where
  "reach_ok t [] = True"
| "reach_ok t (f # st) = ((\<forall>e \<in> greys st. (e, frame_node f) \<in> (toposort_edges t)\<^sup>+) \<and> reach_ok t st)"

fun deps_ok :: "toposort \<Rightarrow> string set \<Rightarrow> frame list \<Rightarrow> bool" where
  "deps_ok t S [] = True"
| "deps_ok t S (Visit n # st) = deps_ok t (insert n S) st"
| "deps_ok t S (Emit n # st) = (set (toposort_deps t n) \<subseteq> S \<and> deps_ok t S st)"

definition dfs_inv :: "toposort \<Rightarrow> frame list \<Rightarrow> string set \<Rightarrow> string list \<Rightarrow> bool" where
  "dfs_inv t st marked placed =
     (distinct placed \<and> distinct (emitted st) \<and> marked = set placed \<union> greys st \<and>
      set placed \<inter> greys st = {} \<and> closed t placed \<and> reach_ok t st \<and> deps_ok t marked st)"

subsection \<open>Predicates on the recorded graph\<close>

text \<open>
  A record agrees with the archive when the descriptor of its package is in the
  archive and declares the dependencies of the record.
\<close>

definition described :: "zip \<Rightarrow> dependency \<Rightarrow> bool" where
  "described zp r =
     (\<exists>s json. map_of zp (packagePath r @ ''library.json'') = Some (Json s json) \<and>
        dependencies r = map packagePathOf (json_preloadedDependencies json))"

text \<open>The descriptor files that the declared dependencies lead to from \<^verbatim>\<open>h5p.json\<close>.\<close>

inductive reachable :: "zip \<Rightarrow> string \<Rightarrow> bool" for zp :: zip where
  root: "reachable zp ''h5p.json''"
| dep:
    "reachable zp f \<Longrightarrow> map_of zp f = Some (Json s json) \<Longrightarrow> d \<in> set (json_preloadedDependencies json) \<Longrightarrow>
     reachable zp (packagePathOf d @ ''library.json'')"

text \<open>
  The packages of the calls in progress, and the paths known at a moment of the
  resolution: those of the records pushed and of the calls in progress.
\<close>

fun active :: "promise \<Rightarrow> string set" where
  "active (Reading jsonFile root visitedPaths pkgPath) = (if pkgPath = [] then {} else {pkgPath})"
| "active (Waiting pkgPath json ts) = (if pkgPath = [] then {} else {pkgPath}) \<union> (\<Union>t \<in> set ts. active t)"
| "active Fulfilled = {}"

definition known :: "runner \<Rightarrow> promise \<Rightarrow> string set" where
  "known this t = packagePath ` set (this_dependencies this) \<union> active t"

text \<open>The descriptor that a call with a given \<^verbatim>\<open>packagePath\<close> reads.\<close>

definition descriptorPath :: "string \<Rightarrow> string" where
  "descriptorPath pkgPath = (if pkgPath = [] then ''h5p.json'' else pkgPath @ ''library.json'')"

text \<open>
  What holds of the calls in progress, given a set \<open>K\<close> of paths: a read in flight is
  of a descriptor that the declared dependencies lead to, and the paths it was given
  as visited are in \<open>K\<close>; a call that waits has read its descriptor from the archive,
  the dependencies declared there are in \<open>K\<close>, and a read is in flight below it.
\<close>

fun promise_ok :: "zip \<Rightarrow> string set \<Rightarrow> promise \<Rightarrow> bool" where
  "promise_ok zp K (Reading jsonFile root visitedPaths pkgPath) =
     (reachable zp jsonFile \<and> visitedPaths \<subseteq> K \<and> jsonFile = descriptorPath pkgPath)"
| "promise_ok zp K (Waiting pkgPath json ts) =
     ((\<exists>s. map_of zp (descriptorPath pkgPath) = Some (Json s json)) \<and>
      set (map packagePathOf (json_preloadedDependencies json)) \<subseteq> K \<and>
      0 < sum_list (map pendingReads ts) \<and>
      (\<forall>t \<in> set ts. promise_ok zp K t))"
| "promise_ok zp K Fulfilled = True"

text \<open>
  What holds at every moment of a resolution: the calls in progress are as above
  for the known paths, every record agrees with the archive and its dependencies
  are known, and so are the dependencies of the root once its descriptor is read.
\<close>

definition resolving :: "zip \<Rightarrow> promise \<Rightarrow> runner \<Rightarrow> bool" where
  "resolving zp t this =
     (promise_ok zp (known this t) t \<and>
      (\<forall>r \<in> set (this_dependencies this). described zp r \<and> set (dependencies r) \<subseteq> known this t) \<and>
      (t = Reading ''h5p.json'' True {} [] \<or>
       (\<exists>s json. map_of zp ''h5p.json'' = Some (Json s json) \<and>
          set (map packagePathOf (json_preloadedDependencies json)) \<subseteq> known this t)))"

subsection \<open>Predicates on the events of the loader\<close>

definition planOf :: "kind \<Rightarrow> dep_map list \<Rightarrow> dep_map list \<Rightarrow> dep_map list" where
  "planOf k css js = (case k of Style \<Rightarrow> css | Script \<Rightarrow> js)"

text \<open>The loads of the tiers before tier \<open>j\<close> of a plan.\<close>

definition loadsBefore :: "kind \<Rightarrow> dep_map list \<Rightarrow> nat \<Rightarrow> load list" where
  "loadsBefore k plan j = concat (map (loadsOf k plan) [0..<j])"

text \<open>
  The events that must have happened before an event: before a call of
  \<^verbatim>\<open>scriptLoader\<close> for a file of tier \<open>j\<close>, the completion of every load of the tiers
  before \<open>j\<close> of the same plan and, for a script, of every load of a style; before
  the completion of a script of tier \<open>i\<close>, the calls for all the files of tier \<open>i\<close>.
\<close>

fun needs :: "dep_map list \<Rightarrow> dep_map list \<Rightarrow> event \<Rightarrow> event list" where
  "needs css js (Started (k, j, key) url) =
     map Loaded (loadsBefore k (planOf k css js) j) @
     (if k = Script then map Loaded (loadsBefore Style css (length css)) else [])"
| "needs css js (Loaded (k, i, key)) =
     (if k = Script then map (\<lambda>(l, url). Started l url) (tierLoads Script js i) else [])"
| "needs css js (Failed l) = []"
| "needs css js Initialised = []"

definition ordered :: "dep_map list \<Rightarrow> dep_map list \<Rightarrow> event list \<Rightarrow> bool" where
  "ordered css js tr = (\<forall>xs e ys. tr = xs @ e # ys \<longrightarrow> set (needs css js e) \<subseteq> set xs)"

text \<open>What holds of the events so far and the state of the chain after any number of steps.\<close>

definition loader_inv :: "dep_map list \<Rightarrow> dep_map list \<Rightarrow> event list \<Rightarrow> loader \<Rightarrow> bool" where
  "loader_inv css js tr s =
     ((\<forall>l \<in> set (pending s). phase s = Script \<and> 0 < tier s \<and> l \<in> set (loadsOf Script js (tier s - 1))) \<and>
      (phase s = Style \<longrightarrow> \<not> rejected s \<and> tier s \<le> length css \<and>
         Loaded ` set (loadsBefore Style css (tier s)) \<subseteq> set tr) \<and>
      (phase s = Script \<longrightarrow> tier s \<le> length js \<and>
         Loaded ` set (loadsBefore Style css (length css)) \<subseteq> set tr \<and>
         Loaded ` set (loadsBefore Script js (tier s - 1)) \<subseteq> set tr \<and>
         (\<lambda>(l, url). Started l url) ` (\<Union>i<tier s. set (tierLoads Script js i)) \<subseteq> set tr \<and>
         (\<not> rejected s \<longrightarrow> 0 < tier s \<longrightarrow>
            (\<forall>l \<in> set (loadsOf Script js (tier s - 1)). l \<in> set (pending s) \<or> Loaded l \<in> set tr))))"

subsection \<open>Predicates on the reports of the hook\<close>

text \<open>
  The hook after events of one debounced verb id \<open>key\<close> that all fall into the window
  of the first: the first event, at \<open>t1\<close> with the statement \<open>s1\<close>, is reported; the
  last event so far is at \<open>tk\<close> with \<open>sk\<close> (\<open>later\<close> tells whether it is another than
  the first); and either the timeout of the first event is pending, or the timeout was
  set again for the last event, or no timeout is pending and at most the last event
  was reported as well.
\<close>

definition collapsing :: "string \<Rightarrow> int \<Rightarrow> statement \<Rightarrow> int \<Rightarrow> statement \<Rightarrow> bool \<Rightarrow> hook \<Rightarrow> bool" where
  "collapsing key t1 s1 tk sk later h =
     (\<exists>d. map_of (debouncedHandlers h) key = Some d \<and>
        (\<forall>k d'. k \<noteq> key \<longrightarrow> map_of (debouncedHandlers h) k = Some d' \<longrightarrow> timerId d' = None) \<and>
        t1 \<le> tk \<and> tk < t1 + debounceDelay * 1000 \<and> tk \<le> clock h \<and> (\<not> later \<longrightarrow> tk = t1 \<and> sk = s1) \<and>
        lastCallTime d = Some tk \<and>
        (timerId d = Some (t1 + debounceDelay * 1000) \<and> clock h = tk \<and> lastInvokeTime d = t1 \<and>
           sent h = [(t1, s1)] \<and> lastArgs d = (if later then Some sk else None)
         \<or> timerId d = Some (tk + debounceDelay * 1000) \<and> t1 + debounceDelay * 1000 \<le> clock h \<and>
           lastInvokeTime d = t1 \<and> sent h = [(t1, s1)] \<and> lastArgs d = Some sk \<and> later
         \<or> timerId d = None \<and> t1 + debounceDelay * 1000 \<le> clock h \<and> lastArgs d = None \<and>
           (sent h = [(t1, s1)] \<or> (\<exists>t. tk + debounceDelay * 1000 \<le> t \<and> sent h = [(t1, s1), (t, sk)]))))"

subsection \<open>Example archives\<close>

text \<open>
  A descriptor file that declares dependencies and no scripts or styles. The text of
  a descriptor plays no role and is left empty in the examples.
\<close>

definition descriptorOf :: "dep_ref list \<Rightarrow> descriptor" where
  "descriptorOf ds = \<lparr> json_preloadedDependencies = ds, json_preloadedJs = [],
     json_preloadedCss = [], json_mainLibrary = None \<rparr>"

definition descriptorFile :: "dep_ref list \<Rightarrow> file_content" where
  "descriptorFile ds = Json [] (descriptorOf ds)"

definition libraryRef :: "string \<Rightarrow> dep_ref" where
  "libraryRef n = \<lparr> machineName = n, majorVersion = 1, minorVersion = 0 \<rparr>"

text \<open>The root depends on \<open>a\<close>, \<open>a\<close> on \<open>b\<close> and \<open>b\<close> on \<open>a\<close>.\<close>

definition cyclicArchive :: "dep_ref \<Rightarrow> dep_ref \<Rightarrow> zip" where
  "cyclicArchive a b =
     [(''h5p.json'', descriptorFile [a]),
      (packagePathOf a @ ''library.json'', descriptorFile [b]),
      (packagePathOf b @ ''library.json'', descriptorFile [a])]"

text \<open>
  The root depends on \<open>a\<close>, \<open>a\<close> on \<open>b\<close> and \<open>c\<close>, and both \<open>b\<close> and \<open>c\<close> depend on
  \<open>d\<close>, which has no dependency.
\<close>

definition diamondArchive :: "dep_ref \<Rightarrow> dep_ref \<Rightarrow> dep_ref \<Rightarrow> dep_ref \<Rightarrow> zip" where
  "diamondArchive a b c d =
     [(''h5p.json'', descriptorFile [a]),
      (packagePathOf a @ ''library.json'', descriptorFile [b, c]),
      (packagePathOf b @ ''library.json'', descriptorFile [d]),
      (packagePathOf c @ ''library.json'', descriptorFile [d]),
      (packagePathOf d @ ''library.json'', descriptorFile [])]"

text \<open>
  A package \<^verbatim>\<open>A-1.0/\<close> with one stylesheet that refers to an image of the package, and
  one script.
\<close>

definition stylesheetArchive :: zip where
  "stylesheetArchive =
     [(''h5p.json'', descriptorFile [libraryRef ''A'']),
      (''A-1.0/library.json'',
         Json [] \<lparr> json_preloadedDependencies = [], json_preloadedJs = [''a.js''],
                   json_preloadedCss = [''style.css''], json_mainLibrary = None \<rparr>),
      (''A-1.0/style.css'', Bytes ''a{background:url(img.png)}''),
      (''A-1.0/img.png'', Bytes ''PNG''),
      (''A-1.0/a.js'', Bytes ''H5P.A = {}'')]"

text \<open>
  The root depends on \<open>A\<close> and \<open>C\<close>; the descriptor of \<open>A\<close> is not JSON, and \<open>C\<close>
  depends on \<open>X\<close>, whose descriptor is not in the archive.
\<close>

definition twoFaultsArchive :: zip where
  "twoFaultsArchive =
     [(''h5p.json'', descriptorFile [libraryRef ''A'', libraryRef ''C'']),
      (''A-1.0/library.json'', Bytes ''{ truncated''),
      (''C-1.0/library.json'', descriptorFile [libraryRef ''X''])]"

text \<open>The root depends on \<open>A\<close>, and \<open>A\<close> on \<open>X\<close>, whose descriptor is not in the archive.\<close>

definition missingArchive :: zip where
  "missingArchive =
     [(''h5p.json'', descriptorFile [libraryRef ''A'']),
      (''A-1.0/library.json'', descriptorFile [libraryRef ''X''])]"

text \<open>A load plan with one tier of styles and two tiers of scripts.\<close>

definition exampleStyles :: "dep_map list" where
  "exampleStyles = [\<lparr> dependency = ''B-1.0/'', fileMap = [(''b.css'', Own (BlobUrl ''blob:0''))] \<rparr>]"

definition exampleScripts :: "dep_map list" where
  "exampleScripts =
     [\<lparr> dependency = ''D-1.0/'', fileMap = [(''d.js'', Own (BlobUrl ''blob:1''))] \<rparr>,
      \<lparr> dependency = ''B-1.0/'', fileMap = [(''b1.js'', Own (BlobUrl ''blob:2'')),
                                              (''b2.js'', Own (BlobUrl ''blob:3''))] \<rparr>]"

text \<open>A run of the example: the second script of the second tier is loaded first.\<close>

definition exampleTrace :: "event list" where
  "exampleTrace =
     [Started (Style, 0, ''b.css'') ''blob:0'', Loaded (Style, 0, ''b.css''),
      Started (Script, 0, ''d.js'') ''blob:1'', Loaded (Script, 0, ''d.js''),
      Started (Script, 1, ''b1.js'') ''blob:2'', Started (Script, 1, ''b2.js'') ''blob:3'',
      Loaded (Script, 1, ''b2.js''), Loaded (Script, 1, ''b1.js''), Initialised]"

text \<open>A runner that holds the given records and nothing else.\<close>

definition runnerWith :: "(string \<times> string list) list \<Rightarrow> runner" where
  "runnerWith records = init_runner\<lparr> this_dependencies :=
     map (\<lambda>(p, qs). \<lparr> packagePath = p, dependencies = qs, preloadedCss = [], preloadedJs = [] \<rparr>) records \<rparr>"

text \<open>
  A vocabulary whose verb ids are IRIs, and ten events of the verb \<^verbatim>\<open>interacted\<close>, one
  every 400 ms from the time 1000 on, followed by the timeout of the handler of the
  verb, which runs twice.
\<close>

definition exampleVocabulary :: "string \<Rightarrow> string" where
  "exampleVocabulary name = ''http://adlnet.gov/expapi/verbs/'' @ name"

definition exampleStatement :: "nat \<Rightarrow> statement" where
  "exampleStatement n = \<lparr> verb_id = exampleVocabulary ''interacted'', content = decimal n \<rparr>"

definition exampleHappenings :: "happening list" where
  "exampleHappenings =
     map (\<lambda>n. Dispatch (1000 + 400 * int n) (exampleStatement n)) [0..<10] @
     [Timeout 6000 (exampleVocabulary ''interacted''), Timeout 9600 (exampleVocabulary ''interacted'')]"

section \<open>Properties\<close>

subsection \<open>Package paths\<close>

lemma packagePathOf_slash: "CHR ''/'' \<in> set (packagePathOf d)"
  by (simp add: packagePathOf_def)

lemma library_json_not_root: "packagePathOf d @ ''library.json'' \<noteq> ''h5p.json''"
proof
  assume "packagePathOf d @ ''library.json'' = ''h5p.json''"
  then have "CHR ''/'' \<in> set ''h5p.json''"
    using packagePathOf_slash [of d] by (metis Un_iff set_append)
  then show False by simp
qed

lemma packagePathOf_nonempty: "packagePathOf d \<noteq> []"
  using packagePathOf_slash [of d] by auto

subsection \<open>A cycle of two packages\<close>

text \<open>
  C3, as the spec states it, at the archive where \<^verbatim>\<open>A-1.0/\<close> depends on \<^verbatim>\<open>B-1.0/\<close> and
  \<^verbatim>\<open>B-1.0/\<close> on \<^verbatim>\<open>A-1.0/\<close>: the resolution succeeds and records both packages, but it
  is not the case that the back-edge from \<^verbatim>\<open>B-1.0/\<close> to \<^verbatim>\<open>A-1.0/\<close> is absent from the
  recorded graph.
\<close>

theorem cycle_back_edge_absent_counterexample:
  "\<forall>sched. \<not> (case resolve sched (cyclicArchive (libraryRef ''A'') (libraryRef ''B'')) of
        Inl e \<Rightarrow> False
      | Inr this \<Rightarrow> ''A-1.0/'' \<in> fst ` set (recorded this) \<and> ''B-1.0/'' \<in> fst ` set (recorded this) \<and>
          (''B-1.0/'', ''A-1.0/'') \<notin> set (recordedEdges this))"
  by (simp add: resolve_def recurseDependencies_def awaitReads.simps readCompleted_def promiseAll_def
      pushDependency_def cyclicArchive_def descriptorFile_def descriptorOf_def libraryRef_def
      packagePathOf_def recorded_def recordedEdges_def init_runner_def)

text \<open>
  C3 (amended): for a cyclic input \<open>a \<rightarrow> b \<rightarrow> a\<close> of two distinct packages, the
  resolution started by \<^verbatim>\<open>recurseDependencies\<close> ends (it is a total function of the
  archive and of the order in which the reads complete, each package is entered once)
  and the dependency list holds exactly one record for \<open>b\<close> and one for \<open>a\<close>; the
  record of \<open>b\<close> still lists \<open>a\<close>: the visited dependency is not recursed into, but
  its path stays in the recorded dependency list.
\<close>

theorem cycle_terminates_keeps_back_edge:
  assumes "packagePathOf a \<noteq> packagePathOf b"
  shows "\<exists>this. resolve sched (cyclicArchive a b) = Inr this \<and>
           recorded this = [(packagePathOf b, [packagePathOf a]), (packagePathOf a, [packagePathOf b])]"
  using assms
  by (simp add: resolve_def recurseDependencies_def awaitReads.simps readCompleted_def promiseAll_def
      pushDependency_def cyclicArchive_def descriptorFile_def descriptorOf_def library_json_not_root
      packagePathOf_nonempty recorded_def init_runner_def)

theorem cycle_terminates_keeps_back_edge_witness:
  "packagePathOf (libraryRef ''A'') \<noteq> packagePathOf (libraryRef ''B'') \<and>
   (\<forall>sched. \<exists>this. resolve sched (cyclicArchive (libraryRef ''A'') (libraryRef ''B'')) = Inr this \<and>
       recorded this = [(''B-1.0/'', [''A-1.0/'']), (''A-1.0/'', [''B-1.0/''])])"
proof -
  have ne: "packagePathOf (libraryRef ''A'') \<noteq> packagePathOf (libraryRef ''B'')"
    by (simp add: packagePathOf_def libraryRef_def)
  have pa: "packagePathOf (libraryRef ''A'') = ''A-1.0/''"
    and pb: "packagePathOf (libraryRef ''B'') = ''B-1.0/''"
    by (simp_all add: packagePathOf_def libraryRef_def)
  show ?thesis using ne cycle_terminates_keeps_back_edge [OF ne] by (simp add: pa pb)
qed

subsection \<open>Rewriting the references of a stylesheet\<close>

lemma optQuote_append: "fst (optQuote s) @ snd (optQuote s) = s"
  by (cases s) auto

lemma cssPathRegex_text:
  assumes "cssPathRegex s = Some (p1, p2, p3, rest)"
  shows "tokenText (UrlRef p1 p2 p3) @ rest = s"
proof -
  obtain q1 r1 where o1: "optQuote (drop 4 s) = (q1, r1)" by (cases "optQuote (drop 4 s)")
  obtain q2 r2 where o2: "optQuote (dropWhile isPathChar r1) = (q2, r2)"
    by (cases "optQuote (dropWhile isPathChar r1)")
  from assms have url: "take 4 s = ''url(''"
    by (auto simp: cssPathRegex_def split: if_splits)
  from assms o1 o2 url have r2: "r2 = CHR '')'' # rest" and p1: "p1 = ''url('' @ q1"
    and p3: "p3 = q2 @ '')''"
    and p2: "(case p2 of None \<Rightarrow> [] | Some s \<Rightarrow> s) = takeWhile isPathChar r1"
    by (auto simp: cssPathRegex_def Let_def split: if_splits list.splits)
  have "q1 @ r1 = drop 4 s" using optQuote_append [of "drop 4 s"] o1 by simp
  moreover have "q2 @ r2 = dropWhile isPathChar r1"
    using optQuote_append [of "dropWhile isPathChar r1"] o2 by simp
  moreover have "takeWhile isPathChar r1 @ dropWhile isPathChar r1 = r1" by simp
  moreover have "take 4 s @ drop 4 s = s" by simp
  ultimately have "''url('' @ q1 @ takeWhile isPathChar r1 @ q2 @ r2 = s"
    using url by (metis append_assoc)
  then show ?thesis using r2 p1 p2 p3 by simp
qed

lemma scan_text: "concat (map tokenText (scan s)) = s"
proof (induction s rule: scan.induct)
  case 1
  show ?case by simp
next
  case (2 c cs)
  show ?case
  proof (cases "cssPathRegex (c # cs)")
    case None
    with 2 show ?thesis by simp
  next
    case (Some m)
    obtain p1 p2 p3 rest where m: "m = (p1, p2, p3, rest)" by (cases m)
    have "concat (map tokenText (scan rest)) = rest" using 2(2) [OF Some m [THEN sym]] m by simp
    moreover have "tokenText (UrlRef p1 p2 p3) @ rest = c # cs"
      using cssPathRegex_text Some m by simp
    ultimately show ?thesis using Some m by simp
  qed
qed

lemma rewriteToken_unresolved:
  "unresolved pathname dep packageFiles t \<Longrightarrow> rewriteToken pathname dep packageFiles t = tokenText t"
  by (cases t) (auto simp: rewriteRef_def split: option.splits property.splits)

text \<open>
  C5: for the stylesheet text \<^verbatim>\<open>background: url('img/a.png')\<close>, when the reference
  resolves to a path whose entry in the package's file map is a non-empty handle
  (\<^verbatim>\<open>handle:abc\<close> in the claim), \<^verbatim>\<open>replacePaths\<close> returns the text with the handle in
  place of \<^verbatim>\<open>img/a.png\<close>; the prefix \<^verbatim>\<open>url(\<close>, the quotes and the closing parenthesis
  are unchanged.
\<close>

theorem replacePaths_substitutes_handle:
  assumes "map_of packageFiles dep = Some (RawText ''background: url('img/a.png')'')"
    and "pathname dep ''img/a.png'' = Some path"
    and "map_of packageFiles path = Some (BlobUrl handle)"
    and "handle \<noteq> []"
  shows "replacePaths pathname dep packageFiles =
           Inr (''background: url('' @ [CHR 0x27] @ handle @ [CHR 0x27] @ '')'')"
  using assms
  by (simp add: replacePaths_def objGet_def cssPathRegex_def isPathChar_def isQuote_def rewriteRef_def)

theorem replacePaths_substitutes_handle_witness:
  "replacePaths (\<lambda>dep ref. Some ref) ''style.css''
     [(''style.css'', RawText ''background: url('img/a.png')''), (''img/a.png'', BlobUrl ''handle:abc'')]
   = Inr ''background: url('handle:abc')''"
  using replacePaths_substitutes_handle [of
      "[(''style.css'', RawText ''background: url('img/a.png')''), (''img/a.png'', BlobUrl ''handle:abc'')]"
      "''style.css''" "\<lambda>dep ref. Some ref" "''img/a.png''" "''handle:abc''"]
  by simp

text \<open>
  C6 at a stylesheet \<^verbatim>\<open>style.css\<close> at the root of its package with the text
  \<^verbatim>\<open>a{background:url(constructor)}\<close>, in a file map that holds nothing but the
  stylesheet: the resolved path \<^verbatim>\<open>constructor\<close> is absent from the file map, yet the read
  \<^verbatim>\<open>packageFiles[path]\<close> finds the member of \<^verbatim>\<open>Object.prototype\<close> and the reference is
  replaced by its text instead of being left as it is.
\<close>

theorem replacePaths_inherited_member:
  "replacePaths (\<lambda>dep ref. Some ref) ''style.css''
     [(''style.css'', RawText ''a{background:url(constructor)}'')]
   = Inr ''a{background:url(function Object() { [native code] })}''"
  by (simp add: replacePaths_def objGet_def objectPrototype_def inheritedText_def cssPathRegex_def
      isPathChar_def isQuote_def rewriteRef_def)

text \<open>
  What holds of C6: \<^verbatim>\<open>replacePaths\<close> on a stylesheet that the file map owns always
  returns a text, the pieces of the input rewritten one by one; every \<^verbatim>\<open>url(...)\<close>
  reference whose resolution throws, or for whose resolved path the read of the file
  map gives \<^verbatim>\<open>undefined\<close> (no own entry, and not the name of a member of
  \<^verbatim>\<open>Object.prototype\<close>) or the empty string, stands in the result exactly as in the
  input, whatever the other references are.
\<close>

theorem replacePaths_keeps_unresolved:
  assumes "map_of packageFiles dep = Some css"
  shows "replacePaths pathname dep packageFiles =
           Inr (concat (map (rewriteToken pathname dep packageFiles) (scan (resource_string css)))) \<and>
         concat (map tokenText (scan (resource_string css))) = resource_string css \<and>
         (\<forall>t \<in> set (scan (resource_string css)).
            unresolved pathname dep packageFiles t \<longrightarrow>
              rewriteToken pathname dep packageFiles t = tokenText t)"
  using assms by (simp add: replacePaths_def objGet_def scan_text rewriteToken_unresolved)

theorem replacePaths_keeps_unresolved_witness:
  "replacePaths (\<lambda>dep ref. if ref = ''%'' then None else Some ref) ''style.css''
     [(''style.css'', RawText ''a{background:url(%)} b{background:url(\"x.png\")} c{background:url('y.png')}''),
      (''y.png'', BlobUrl ''blob:1'')]
   = Inr ''a{background:url(%)} b{background:url(\"x.png\")} c{background:url('blob:1')}''"
proof -
  let ?pf = "[(''style.css'', RawText ''a{background:url(%)} b{background:url(\"x.png\")} c{background:url('y.png')}''),
      (''y.png'', BlobUrl ''blob:1'')]"
  have "map_of ?pf ''style.css'' =
      Some (RawText ''a{background:url(%)} b{background:url(\"x.png\")} c{background:url('y.png')}'')"
    by simp
  from replacePaths_keeps_unresolved [OF this, of "\<lambda>dep ref. if ref = ''%'' then None else Some ref"]
  show ?thesis
    by (simp add: objGet_def objectPrototype_def cssPathRegex_def isPathChar_def isQuote_def rewriteRef_def)
qed

subsection \<open>Storing user data\<close>

text \<open>
  C10: when the serialization of the data argument throws, \<^verbatim>\<open>setUserData\<close> calls the
  error callback with the error if it is a function (and nothing otherwise), leaves
  \<^verbatim>\<open>self.data\<close> as it was and does not call \<^verbatim>\<open>stateUpdated\<close>; hence the store changes
  and \<^verbatim>\<open>stateUpdated\<close> is called only when serialization succeeds, and then both happen.
\<close>

theorem setUserData_serialization_failure:
  assumes "stringify d = Inl err"
  shows "self_data (setUserData stringify contentId dataId d options self) = self_data self \<and>
         stateUpdated (setUserData stringify contentId dataId d options self) = stateUpdated self \<and>
         errorCalls (setUserData stringify contentId dataId d options self) =
           errorCalls self @ (case errorCallback options of Some f \<Rightarrow> [(f, err)] | None \<Rightarrow> []) \<and>
         (\<forall>d'. self_data (setUserData stringify contentId dataId d' options self) \<noteq> self_data self \<or>
                stateUpdated (setUserData stringify contentId dataId d' options self) \<noteq> stateUpdated self
                \<longrightarrow> (\<exists>s. stringify d' = Inr s \<and>
                      stateUpdated (setUserData stringify contentId dataId d' options self) = Suc (stateUpdated self) \<and>
                      self_data (setUserData stringify contentId dataId d' options self) =
                        lodash_set (self_data self) (subContentId options) dataId s))"
  using assms by (auto simp: setUserData_def split: option.splits sum.splits)

theorem setUserData_serialization_failure_witness:
  "(let stringify = (\<lambda>n::nat. if n = 0 then Inl ''TypeError'' else Inr (Some (decimal n)));
        self = \<lparr> self_data = [(''0'', [(''state'', Some ''1'')])], stateUpdated = 3, errorCalls = [] \<rparr>;
        failed = setUserData stringify ''1234567890'' ''state'' 0
                   \<lparr> subContentId = ''0'', errorCallback = Some ''onError'' \<rparr> self;
        stored = setUserData stringify ''1234567890'' ''state'' 7
                   \<lparr> subContentId = ''0'', errorCallback = Some ''onError'' \<rparr> self
    in self_data failed = [(''0'', [(''state'', Some ''1'')])] \<and> stateUpdated failed = 3 \<and>
       errorCalls failed = [(''onError'', ''TypeError'')] \<and>
       self_data stored = [(''0'', [(''state'', Some ''7'')])] \<and> stateUpdated stored = 4)"
  using setUserData_serialization_failure [of
      "\<lambda>n::nat. if n = 0 then Inl ''TypeError'' else Inr (Some (decimal n))" 0 "''TypeError''"
      "''1234567890''" "''state''" "\<lparr> subContentId = ''0'', errorCallback = Some ''onError'' \<rparr>"
      "\<lparr> self_data = [(''0'', [(''state'', Some ''1'')])], stateUpdated = 3, errorCalls = [] \<rparr>"]
  by (simp add: setUserData_def lodash_set_def)

subsection \<open>The depth-first order\<close>

lemma greys_emitted: "greys st = set (emitted st)"
  by (induction st rule: emitted.induct) auto

lemma reach_ok_visits:
  "reach_ok t (map Visit ds @ st) =
     ((\<forall>d \<in> set ds. \<forall>e \<in> greys st. (e, d) \<in> (toposort_edges t)\<^sup>+) \<and> reach_ok t st)"
  by (induction ds) (auto simp: greys_append greys_map_Visit)

lemma deps_ok_visits: "deps_ok t S (map Visit ds @ st) = deps_ok t (S \<union> set ds) st"
  by (induction ds arbitrary: S) auto

lemma deps_ok_mono: "deps_ok t S st \<Longrightarrow> S \<subseteq> S' \<Longrightarrow> deps_ok t S' st"
proof (induction t S st arbitrary: S' rule: deps_ok.induct)
  case (1 t S)
  show ?case by simp
next
  case (2 t S n st)
  from 2(2,3) show ?case by (auto intro: 2(1) [where S' = "insert n S'"])
next
  case (3 t S n st)
  from 3(2,3) show ?case by (auto intro: 3(1))
qed

lemma emitted_visits: "emitted (map Visit ds @ st) = emitted st"
  by (induction ds) auto

lemma dfs_inv_skip:
  assumes "dfs_inv t (Visit n # st) marked placed" and "n \<in> marked"
  shows "dfs_inv t st marked placed"
  using assms by (auto simp: dfs_inv_def insert_absorb)

lemma dfs_inv_enter:
  assumes inv: "dfs_inv t (Visit n # st) marked placed" and n: "n \<notin> marked"
  shows "dfs_inv t (map Visit (toposort_deps t n) @ Emit n # st) (insert n marked) placed"
proof -
  let ?ds = "toposort_deps t n"
  let ?E = "toposort_edges t"
  from inv have marked: "marked = set placed \<union> greys st"
    and reach: "\<forall>e \<in> greys st. (e, n) \<in> ?E\<^sup>+" "reach_ok t st"
    and deps: "deps_ok t (insert n marked) st"
    and rest: "distinct placed" "distinct (emitted st)" "set placed \<inter> greys st = {}" "closed t placed"
    by (auto simp: dfs_inv_def)
  have edge: "\<And>d. d \<in> set ?ds \<Longrightarrow> (n, d) \<in> ?E" by (simp add: toposort_edges_def)
  have r: "reach_ok t (map Visit ?ds @ Emit n # st)"
    unfolding reach_ok_visits using reach edge by (auto intro: trancl_into_trancl)
  have d: "deps_ok t (insert n marked) (map Visit ?ds @ Emit n # st)"
    unfolding deps_ok_visits using deps by (auto intro: deps_ok_mono)
  have g: "n \<notin> greys st" "n \<notin> set placed" using n marked by auto
  show ?thesis
    unfolding dfs_inv_def using r d g rest marked
    by (auto simp: greys_append greys_map_Visit greys_emitted emitted_visits)
qed

lemma dfs_inv_emit:
  assumes inv: "dfs_inv t (Emit n # st) marked placed" and acyc: "acyclic (toposort_edges t)"
  shows "dfs_inv t st marked (n # placed)"
proof -
  let ?E = "toposort_edges t"
  from inv have marked: "marked = set placed \<union> insert n (greys st)"
    and reach: "\<forall>e \<in> greys st. (e, n) \<in> ?E\<^sup>+" "reach_ok t st"
    and deps: "set (toposort_deps t n) \<subseteq> marked" "deps_ok t marked st"
    and dist: "distinct placed" "n \<notin> set (emitted st)" "distinct (emitted st)"
    and disj: "set placed \<inter> insert n (greys st) = {}" and cl: "closed t placed"
    by (auto simp: dfs_inv_def)
  have "set (toposort_deps t n) \<subseteq> set placed"
  proof
    fix q assume q: "q \<in> set (toposort_deps t n)"
    then have nq: "(n, q) \<in> ?E" by (simp add: toposort_edges_def)
    have "q \<noteq> n" using nq acyc by (auto simp: acyclic_def)
    moreover have "q \<notin> greys st"
    proof
      assume "q \<in> greys st"
      then have "(q, n) \<in> ?E\<^sup>+" using reach by blast
      then have "(n, n) \<in> ?E\<^sup>+" using nq by (rule trancl_into_trancl2 [rotated])
      then show False using acyc by (simp add: acyclic_def)
    qed
    ultimately show "q \<in> set placed" using q deps(1) marked by auto
  qed
  then show ?thesis
    unfolding dfs_inv_def using marked reach(2) deps(2) dist disj cl
    by (auto simp: greys_emitted)
qed

lemma dfs_correct:
  assumes "acyclic (toposort_edges t)" and "dfs_inv t st marked placed"
  shows "distinct (dfs t st marked placed) \<and> closed t (dfs t st marked placed) \<and>
         marked \<union> visits st \<subseteq> set (dfs t st marked placed)"
  using assms
proof (induction t st marked placed rule: dfs.induct)
  case (1 t marked placed)
  then show ?case by (auto simp: dfs_inv_def)
next
  case (2 t n st marked placed)
  show ?case
  proof (cases "n \<in> marked")
    case True
    with 2(1) [OF True "2.prems"(1) dfs_inv_skip [OF "2.prems"(2) True]] show ?thesis by auto
  next
    case False
    with 2(2) [OF False "2.prems"(1) dfs_inv_enter [OF "2.prems"(2) False]] show ?thesis
      by (auto simp: visits_append)
  qed
next
  case (3 t n st marked placed)
  from 3(1) [OF "3.prems"(1) dfs_inv_emit [OF "3.prems"(2,1)]] show ?case by simp
qed

subsection \<open>The load order of setDependencies\<close>

lemma toposort_sort_correct:
  assumes "acyclic (toposort_edges t)"
  shows "distinct (toposort_sort t) \<and> closed t (toposort_sort t) \<and>
         set (toposort_nodes t) \<subseteq> set (toposort_sort t)"
proof -
  have "dfs_inv t (map Visit (toposort_nodes t)) {} []"
    using reach_ok_visits [of t "toposort_nodes t" "[]"] deps_ok_visits [of t "{}" "toposort_nodes t" "[]"]
      emitted_visits [of "toposort_nodes t" "[]"] greys_map_Visit [of "toposort_nodes t"]
    by (simp add: dfs_inv_def)
  from dfs_correct [OF assms this] show ?thesis
    by (simp add: toposort_sort_def visits_map_Visit)
qed

lemma indexOf_append_in: "x \<in> set xs \<Longrightarrow> indexOf (xs @ ys) x = indexOf xs x \<and> indexOf xs x < length xs"
  by (induction xs) auto

lemma indexOf_append_notin: "x \<notin> set xs \<Longrightarrow> indexOf (xs @ x # ys) x = length xs"
  by (induction xs) auto

lemma closed_split:
  "closed t ps \<Longrightarrow> p \<in> set ps \<Longrightarrow> \<exists>xs ys. ps = xs @ p # ys \<and> set (toposort_deps t p) \<subseteq> set ys"
proof (induction ps)
  case Nil
  then show ?case by simp
next
  case (Cons x ps)
  show ?case
  proof (cases "x = p")
    case True
    with Cons.prems(1) have "x # ps = [] @ p # ps \<and> set (toposort_deps t p) \<subseteq> set ps" by simp
    then show ?thesis by blast
  next
    case False
    with Cons obtain xs ys where "ps = xs @ p # ys" "set (toposort_deps t p) \<subseteq> set ys" by auto
    then have "x # ps = (x # xs) @ p # ys \<and> set (toposort_deps t p) \<subseteq> set ys" by simp
    then show ?thesis by blast
  qed
qed

lemma closed_order:
  assumes "closed t ps" and "distinct ps" and "p \<in> set ps" and "q \<in> set (toposort_deps t p)"
  shows "indexOf (rev ps) q < indexOf (rev ps) p \<and> q \<in> set ps"
proof -
  from closed_split [OF assms(1,3)] obtain xs ys
    where ps: "ps = xs @ p # ys" and sub: "set (toposort_deps t p) \<subseteq> set ys" by blast
  have q: "q \<in> set (rev ys)" using sub assms(4) by auto
  have p: "p \<notin> set (rev ys)" using assms(2) ps by auto
  have "indexOf (rev ps) q = indexOf (rev ys) q \<and> indexOf (rev ys) q < length (rev ys)"
    using indexOf_append_in [OF q, of "p # rev xs"] ps by simp
  moreover have "indexOf (rev ps) p = length (rev ys)"
    using indexOf_append_notin [OF p, of "rev xs"] ps by simp
  ultimately show ?thesis using q ps by auto
qed

lemma fold_registerDependency:
  "snd (fold registerDependency ds (this, t)) = t @ map (\<lambda>d. (packagePath d, dependencies d)) ds"
  by (induction ds arbitrary: this t) (auto simp: registerDependency_def toposort_add_def)

lemma sortedDependencies_setDependencies:
  "this_sortedDependencies (setDependencies this) = rev (toposort_sort (recorded this))"
  using fold_registerDependency [of "this_dependencies this" this "[]"]
  by (auto simp: setDependencies_def recorded_def split: prod.splits)

lemma toposort_edges_recorded: "toposort_edges (recorded this) = set (recordedEdges this)"
  by (auto simp: toposort_edges_def toposort_deps_def recordedEdges_def)

lemma recorded_node: "(p, q) \<in> set (recordedEdges this) \<Longrightarrow> p \<in> set (toposort_nodes (recorded this))"
  by (force simp: recordedEdges_def toposort_nodes_def)

lemma acyclic_by_rank:
  fixes f :: "'a \<Rightarrow> nat"
  assumes "\<And>p q. (p, q) \<in> E \<Longrightarrow> f q < f p"
  shows "acyclic E"
  using assms by (rule acyclicI_order)

lemma sorted_order_respects_edges:
  assumes "acyclic (set (recordedEdges this))" and "(p, q) \<in> set (recordedEdges this)"
  shows "indexOf (this_sortedDependencies (setDependencies this)) q
           < indexOf (this_sortedDependencies (setDependencies this)) p \<and>
         p \<in> set (this_sortedDependencies (setDependencies this)) \<and>
         q \<in> set (this_sortedDependencies (setDependencies this))"
proof -
  let ?t = "recorded this"
  from assms(1) have "acyclic (toposort_edges ?t)" by (simp add: toposort_edges_recorded)
  from toposort_sort_correct [OF this]
  have d: "distinct (toposort_sort ?t)" and c: "closed ?t (toposort_sort ?t)"
    and n: "set (toposort_nodes ?t) \<subseteq> set (toposort_sort ?t)" by auto
  have p: "p \<in> set (toposort_sort ?t)" using n recorded_node [OF assms(2)] by auto
  have q: "q \<in> set (toposort_deps ?t p)"
    using assms(2) toposort_edges_recorded [of this] by (auto simp: toposort_edges_def)
  from closed_order [OF c d p q] p show ?thesis
    by (simp add: sortedDependencies_setDependencies)
qed

text \<open>
  C1 at the archive of the cycle \<^verbatim>\<open>A-1.0/\<close>, \<^verbatim>\<open>B-1.0/\<close>: both edges of the cycle are
  recorded, and it is not the case that every recorded edge has its dependency at a
  smaller index of the sorted order.
\<close>

theorem truncated_cycle_order_counterexample:
  "\<forall>sched. \<not> (case resolve sched (cyclicArchive (libraryRef ''A'') (libraryRef ''B'')) of
        Inl e \<Rightarrow> False
      | Inr this \<Rightarrow>
          list_all (\<lambda>(p, q). indexOf (this_sortedDependencies (setDependencies this)) q
                              < indexOf (this_sortedDependencies (setDependencies this)) p)
            (recordedEdges this))"
  by (simp add: resolve_def recurseDependencies_def awaitReads.simps readCompleted_def promiseAll_def
      pushDependency_def cyclicArchive_def descriptorFile_def descriptorOf_def libraryRef_def
      packagePathOf_def recorded_def recordedEdges_def init_runner_def
      sortedDependencies_setDependencies toposort_sort_def toposort_nodes_def toposort_deps_def)

text \<open>
  C1 (amended): for every dependency edge recorded in the graph where package \<open>p\<close>
  lists \<open>q\<close> among its dependencies, both are in the sorted order produced by
  \<^verbatim>\<open>setDependencies\<close> and the index of \<open>q\<close> is strictly less than the index of \<open>p\<close>,
  for every recorded graph without a cycle, diamonds included. (The record of a
  package on a truncated cycle keeps the back-edge, and no order puts each of two
  packages before the other.)
\<close>

theorem setDependencies_topological:
  assumes "acyclic (set (recordedEdges this))" and "(p, q) \<in> set (recordedEdges this)"
  shows "indexOf (this_sortedDependencies (setDependencies this)) q
           < indexOf (this_sortedDependencies (setDependencies this)) p \<and>
         p \<in> set (this_sortedDependencies (setDependencies this)) \<and>
         q \<in> set (this_sortedDependencies (setDependencies this))"
  using assms by (rule sorted_order_respects_edges)

theorem setDependencies_topological_witness:
  "(let this = runnerWith [(''D-1.0/'', []), (''B-1.0/'', [''D-1.0/'']), (''D-1.0/'', []),
                           (''C-1.0/'', [''D-1.0/'']), (''A-1.0/'', [''B-1.0/'', ''C-1.0/''])]
    in acyclic (set (recordedEdges this)) \<and> (''B-1.0/'', ''D-1.0/'') \<in> set (recordedEdges this) \<and>
       this_sortedDependencies (setDependencies this) = [''D-1.0/'', ''B-1.0/'', ''C-1.0/'', ''A-1.0/''] \<and>
       indexOf (this_sortedDependencies (setDependencies this)) ''D-1.0/''
         < indexOf (this_sortedDependencies (setDependencies this)) ''B-1.0/'')"
proof -
  let ?r = "runnerWith [(''D-1.0/'', []), (''B-1.0/'', [''D-1.0/'']), (''D-1.0/'', []),
                           (''C-1.0/'', [''D-1.0/'']), (''A-1.0/'', [''B-1.0/'', ''C-1.0/''])]"
  have edges: "recordedEdges ?r = [(''B-1.0/'', ''D-1.0/''), (''C-1.0/'', ''D-1.0/''),
      (''A-1.0/'', ''B-1.0/''), (''A-1.0/'', ''C-1.0/'')]"
    by (simp add: runnerWith_def recordedEdges_def recorded_def init_runner_def)
  have acyc: "acyclic (set (recordedEdges ?r))"
    unfolding edges by (rule acyclic_by_rank [where f = "\<lambda>x. length (takeWhile (\<lambda>y. y \<noteq> x) [''D-1.0/'', ''B-1.0/'', ''C-1.0/'', ''A-1.0/''])"]) auto
  have edge: "(''B-1.0/'', ''D-1.0/'') \<in> set (recordedEdges ?r)" unfolding edges by simp
  have sorted: "this_sortedDependencies (setDependencies ?r) = [''D-1.0/'', ''B-1.0/'', ''C-1.0/'', ''A-1.0/'']"
    by (simp add: sortedDependencies_setDependencies runnerWith_def recorded_def init_runner_def
        toposort_sort_def toposort_nodes_def toposort_deps_def)
  from setDependencies_topological [OF acyc edge] acyc edge sorted show ?thesis by simp
qed

subsection \<open>A diamond of four packages\<close>

lemma library_json_inject:
  "(packagePathOf x @ ''library.json'' = packagePathOf y @ ''library.json'') = (packagePathOf x = packagePathOf y)"
  by simp

lemma count_list_distinct: "distinct xs \<Longrightarrow> x \<in> set xs \<Longrightarrow> count_list xs x = 1"
  by (induction xs) (auto simp: count_list_0_iff)

lemma recordedEdges_mset:
  assumes "mset (this_dependencies this') = mset (this_dependencies this)"
  shows "set (recordedEdges this') = set (recordedEdges this)"
proof -
  from assms have "set (this_dependencies this') = set (this_dependencies this)"
    by (rule mset_eq_setD)
  then show ?thesis by (simp add: recordedEdges_def recorded_def)
qed

lemma mod_two_cases: "(n::nat) mod 2 = 0 \<or> n mod 2 = 1"
  by presburger

lemma diamond_resolved:
  assumes "distinct [packagePathOf a, packagePathOf b, packagePathOf c, packagePathOf d]"
  shows "\<exists>this. resolve sched (diamondArchive a b c d) = Inr this \<and>
           (recorded this = [(packagePathOf d, []), (packagePathOf b, [packagePathOf d]),
                            (packagePathOf d, []), (packagePathOf c, [packagePathOf d]),
                            (packagePathOf a, [packagePathOf b, packagePathOf c])] \<or>
            recorded this = [(packagePathOf d, []), (packagePathOf c, [packagePathOf d]),
                            (packagePathOf d, []), (packagePathOf b, [packagePathOf d]),
                            (packagePathOf a, [packagePathOf b, packagePathOf c])])"
  using assms mod_two_cases [of "sched 2"] mod_two_cases [of "sched 3"] mod_two_cases [of "sched 4"]
  by (auto simp: resolve_def recurseDependencies_def awaitReads.simps readCompleted_def promiseAll_def
      pushDependency_def diamondArchive_def descriptorFile_def descriptorOf_def library_json_not_root
      packagePathOf_nonempty recorded_def init_runner_def numeral_2_eq_2 numeral_3_eq_3)

text \<open>
  C4: for a diamond \<open>a \<rightarrow> {b, c}\<close>, \<open>b \<rightarrow> d\<close>, \<open>c \<rightarrow> d\<close> of four distinct packages,
  in whatever order the reads complete, \<^verbatim>\<open>recurseDependencies\<close> pushes a record for \<open>d\<close>
  twice (once below \<open>b\<close>, once below \<open>c\<close>) next to one record each for \<open>a\<close>, \<open>b\<close> and
  \<open>c\<close>, and the sorted order of \<^verbatim>\<open>setDependencies\<close> contains \<open>d\<close> exactly once, before
  both \<open>b\<close> and \<open>c\<close>, which are in it; the latter holds in whatever order these records
  were pushed.
\<close>

theorem diamond_recorded_twice_sorted_once:
  assumes "distinct [packagePathOf a, packagePathOf b, packagePathOf c, packagePathOf d]"
  shows "\<exists>this. resolve sched (diamondArchive a b c d) = Inr this \<and>
           mset (recorded this) = mset [(packagePathOf d, []), (packagePathOf b, [packagePathOf d]),
                                        (packagePathOf d, []), (packagePathOf c, [packagePathOf d]),
                                        (packagePathOf a, [packagePathOf b, packagePathOf c])] \<and>
           count_list (map packagePath (this_dependencies this)) (packagePathOf d) = 2 \<and>
           (\<forall>this'. mset (this_dependencies this') = mset (this_dependencies this) \<longrightarrow>
              count_list (this_sortedDependencies (setDependencies this')) (packagePathOf d) = 1 \<and>
              indexOf (this_sortedDependencies (setDependencies this')) (packagePathOf d)
                < indexOf (this_sortedDependencies (setDependencies this')) (packagePathOf b) \<and>
              indexOf (this_sortedDependencies (setDependencies this')) (packagePathOf d)
                < indexOf (this_sortedDependencies (setDependencies this')) (packagePathOf c) \<and>
              packagePathOf b \<in> set (this_sortedDependencies (setDependencies this')) \<and>
              packagePathOf c \<in> set (this_sortedDependencies (setDependencies this')))"
proof -
  let ?a = "packagePathOf a" and ?b = "packagePathOf b" and ?c = "packagePathOf c" and ?d = "packagePathOf d"
  let ?rec = "[(?d, []), (?b, [?d]), (?d, []), (?c, [?d]), (?a, [?b, ?c])]"
  let ?rec' = "[(?d, []), (?c, [?d]), (?d, []), (?b, [?d]), (?a, [?b, ?c])]"
  from assms have ne: "?a \<noteq> ?b" "?a \<noteq> ?c" "?a \<noteq> ?d" "?b \<noteq> ?c" "?b \<noteq> ?d" "?c \<noteq> ?d"
    "?b \<noteq> ?a" "?c \<noteq> ?a" "?d \<noteq> ?a" "?c \<noteq> ?b" "?d \<noteq> ?b" "?d \<noteq> ?c"
    by auto
  from diamond_resolved [OF assms, of sched] obtain this
    where res: "resolve sched (diamondArchive a b c d) = Inr this"
      and rec: "recorded this = ?rec \<or> recorded this = ?rec'"
    by blast
  have recorded: "mset (recorded this) = mset ?rec" using rec by auto
  have paths: "map packagePath (this_dependencies this) = map fst (recorded this)"
    by (simp add: recorded_def comp_def)
  have cnt: "count_list (map packagePath (this_dependencies this)) ?d = 2"
    unfolding paths using rec ne by auto
  have "set (recorded this) = set ?rec" using recorded by (rule mset_eq_setD)
  then have edges: "set (recordedEdges this) = {(?b, ?d), (?c, ?d), (?a, ?b), (?a, ?c)}"
    by (auto simp: recordedEdges_def)
  have acyc: "acyclic (set (recordedEdges this))"
    unfolding edges
    by (rule acyclic_by_rank [where f = "\<lambda>x. if x = ?a then 2 else if x = ?d then 0 else (1::nat)"])
      (use ne in auto)
  have perm: "count_list (this_sortedDependencies (setDependencies this')) ?d = 1 \<and>
      indexOf (this_sortedDependencies (setDependencies this')) ?d
        < indexOf (this_sortedDependencies (setDependencies this')) ?b \<and>
      indexOf (this_sortedDependencies (setDependencies this')) ?d
        < indexOf (this_sortedDependencies (setDependencies this')) ?c \<and>
      ?b \<in> set (this_sortedDependencies (setDependencies this')) \<and>
      ?c \<in> set (this_sortedDependencies (setDependencies this'))"
    if m: "mset (this_dependencies this') = mset (this_dependencies this)" for this'
  proof -
    have e': "set (recordedEdges this') = {(?b, ?d), (?c, ?d), (?a, ?b), (?a, ?c)}"
      using recordedEdges_mset [OF m] edges by simp
    then have a': "acyclic (set (recordedEdges this'))" using acyc edges by simp
    have bd: "(?b, ?d) \<in> set (recordedEdges this')" and cd: "(?c, ?d) \<in> set (recordedEdges this')"
      using e' by auto
    have dist: "distinct (this_sortedDependencies (setDependencies this'))"
      using toposort_sort_correct [of "recorded this'"] a'
      by (simp add: sortedDependencies_setDependencies toposort_edges_recorded)
    from sorted_order_respects_edges [OF a' bd] sorted_order_respects_edges [OF a' cd] dist
    show ?thesis by (simp add: count_list_distinct)
  qed
  from res recorded cnt perm show ?thesis by blast
qed

theorem diamond_recorded_twice_sorted_once_witness:
  "distinct [packagePathOf (libraryRef ''A''), packagePathOf (libraryRef ''B''),
             packagePathOf (libraryRef ''C''), packagePathOf (libraryRef ''D'')] \<and>
   (\<forall>sched. \<exists>this.
      resolve sched (diamondArchive (libraryRef ''A'') (libraryRef ''B'') (libraryRef ''C'') (libraryRef ''D'')) = Inr this \<and>
      count_list (map packagePath (this_dependencies this)) ''D-1.0/'' = 2 \<and>
      count_list (this_sortedDependencies (setDependencies this)) ''D-1.0/'' = 1 \<and>
      indexOf (this_sortedDependencies (setDependencies this)) ''D-1.0/''
        < indexOf (this_sortedDependencies (setDependencies this)) ''B-1.0/'' \<and>
      indexOf (this_sortedDependencies (setDependencies this)) ''D-1.0/''
        < indexOf (this_sortedDependencies (setDependencies this)) ''C-1.0/'')"
proof -
  have paths: "packagePathOf (libraryRef ''A'') = ''A-1.0/''" "packagePathOf (libraryRef ''B'') = ''B-1.0/''"
    "packagePathOf (libraryRef ''C'') = ''C-1.0/''" "packagePathOf (libraryRef ''D'') = ''D-1.0/''"
    by (simp_all add: packagePathOf_def libraryRef_def)
  have d: "distinct [packagePathOf (libraryRef ''A''), packagePathOf (libraryRef ''B''),
             packagePathOf (libraryRef ''C''), packagePathOf (libraryRef ''D'')]"
    by (simp add: paths)
  have "\<exists>this.
      resolve sched (diamondArchive (libraryRef ''A'') (libraryRef ''B'') (libraryRef ''C'') (libraryRef ''D'')) = Inr this \<and>
      count_list (map packagePath (this_dependencies this)) ''D-1.0/'' = 2 \<and>
      count_list (this_sortedDependencies (setDependencies this)) ''D-1.0/'' = 1 \<and>
      indexOf (this_sortedDependencies (setDependencies this)) ''D-1.0/''
        < indexOf (this_sortedDependencies (setDependencies this)) ''B-1.0/'' \<and>
      indexOf (this_sortedDependencies (setDependencies this)) ''D-1.0/''
        < indexOf (this_sortedDependencies (setDependencies this)) ''C-1.0/''" for sched
    using diamond_recorded_twice_sorted_once [OF d, of sched] unfolding paths by blast
  with d show ?thesis by blast
qed

subsection \<open>The file map after processCssDependencies\<close>

text \<open>
  C2 at an archive with one package and one stylesheet: after
  \<^verbatim>\<open>processCssDependencies\<close> (and the rest of the preparation) the entry of the
  stylesheet in the package's file map is the rewritten text, not a blob URL; the
  blob URL of the stylesheet is only in the \<^verbatim>\<open>fileMap\<close> of the load plan.
\<close>

theorem processCssDependencies_stores_text:
  "(case prepare (\<lambda>dep ref. Some ref) sched stylesheetArchive of
      Inl e \<Rightarrow> None
    | Inr this \<Rightarrow> Some (objGet (this_packageFiles this) ''A-1.0/'', this_cssLoad this))
   = Some (Own [(''library.json'', BlobUrl ''blob:0''),
                (''style.css'', RawText ''a{background:url(blob:1)}''),
                (''img.png'', BlobUrl ''blob:1''),
                (''a.js'', BlobUrl ''blob:2'')],
           [\<lparr> dependency = ''A-1.0/'', fileMap = [(''style.css'', Own (BlobUrl ''blob:3''))] \<rparr>])"
proof -
  have "resolve sched stylesheetArchive = resolve (\<lambda>i. 0) stylesheetArchive"
    by (simp add: resolve_def recurseDependencies_def awaitReads.simps readCompleted_def promiseAll_def
      pushDependency_def stylesheetArchive_def descriptorFile_def descriptorOf_def libraryRef_def
        packagePathOf_def init_runner_def)
  then have same: "prepare (\<lambda>dep ref. Some ref) sched stylesheetArchive
      = prepare (\<lambda>dep ref. Some ref) (\<lambda>i. 0) stylesheetArchive"
    by (simp add: prepare_def)
  have "(case prepare (\<lambda>dep ref. Some ref) (\<lambda>i. 0) stylesheetArchive of
      Inl e \<Rightarrow> None
    | Inr this \<Rightarrow> Some (objGet (this_packageFiles this) ''A-1.0/'', this_cssLoad this))
   = Some (Own [(''library.json'', BlobUrl ''blob:0''),
                (''style.css'', RawText ''a{background:url(blob:1)}''),
                (''img.png'', BlobUrl ''blob:1''),
                (''a.js'', BlobUrl ''blob:2'')],
           [\<lparr> dependency = ''A-1.0/'', fileMap = [(''style.css'', Own (BlobUrl ''blob:3''))] \<rparr>])"
    by code_simp
  then show ?thesis by (simp only: same)
qed

subsection \<open>The recorded graph is closed under dependencies\<close>

lemma markVisited_fst: "fst (markVisited v ps) = v \<union> set ps"
  by (induction ps arbitrary: v) auto

lemma markVisited_snd: "set (snd (markVisited v ps)) = set ps - v"
  by (induction ps arbitrary: v) auto

lemma recurseEach_Inl: "recurseEach zp v ps = Inl e \<Longrightarrow> e = EntryNotFound"
  by (induction ps) (auto simp: recurseDependencies_def split: option.splits sum.splits)

lemma isFulfilled_iff: "isFulfilled t = (t = Fulfilled)"
  by (cases t) simp_all

lemma promise_ok_mono: "promise_ok zp K t \<Longrightarrow> K \<subseteq> K' \<Longrightarrow> promise_ok zp K' t"
  by (induction t) auto

lemma promise_ok_pending: "promise_ok zp K t \<Longrightarrow> t \<noteq> Fulfilled \<Longrightarrow> 0 < pendingReads t"
  by (cases t) simp_all

lemma promiseAll_active:
  "promiseAll pkgPath json ts this = (t', this') \<Longrightarrow> (\<Union>t \<in> set ts. active t) \<subseteq> active t'"
  by (auto simp: promiseAll_def list_all_iff isFulfilled_iff split: if_splits)

lemma promiseAll_ok:
  assumes ts: "\<forall>t \<in> set ts. promise_ok zp (K \<union> (\<Union>t \<in> set ts. active t)) t"
    and look: "map_of zp (descriptorPath pkgPath) = Some (Json s json)"
    and deps: "set (map packagePathOf (json_preloadedDependencies json)) \<subseteq> K \<union> (\<Union>t \<in> set ts. active t)"
    and res: "promiseAll pkgPath json ts this = (t', this')"
  shows "\<exists>new. this_dependencies this' = this_dependencies this @ new \<and>
           (if pkgPath = [] then {} else {pkgPath}) \<union> (\<Union>t \<in> set ts. active t)
             \<subseteq> active t' \<union> packagePath ` set new \<and>
           (\<forall>r \<in> set new. described zp r \<and> set (dependencies r) \<subseteq> K \<union> active t') \<and>
           promise_ok zp (K \<union> active t') t'"
proof (cases "list_all isFulfilled ts")
  case True
  then have none: "(\<Union>t \<in> set ts. active t) = {}"
    by (auto simp: list_all_iff isFulfilled_iff)
  from True res have t': "t' = Fulfilled" and this': "this' = pushDependency pkgPath json this"
    by (auto simp: promiseAll_def)
  show ?thesis
  proof (cases "pkgPath = []")
    case True
    with t' this' none have "this_dependencies this' = this_dependencies this @ []"
      by (simp add: pushDependency_def)
    with True t' none show ?thesis by auto
  next
    case False
    let ?r = "\<lparr> packagePath = pkgPath,
                dependencies = map packagePathOf (json_preloadedDependencies json),
                preloadedCss = json_preloadedCss json, preloadedJs = json_preloadedJs json \<rparr>"
    from False this' have "this_dependencies this' = this_dependencies this @ [?r]"
      by (simp add: pushDependency_def)
    moreover have "described zp ?r" using look False by (auto simp: described_def descriptorPath_def)
    moreover have "set (dependencies ?r) \<subseteq> K \<union> active t'" using deps none by auto
    ultimately show ?thesis using t' none False by auto
  qed
next
  case False
  with res have t': "t' = Waiting pkgPath json ts" and this': "this' = this"
    by (auto simp: promiseAll_def)
  from False obtain t where t: "t \<in> set ts" "t \<noteq> Fulfilled"
    by (auto simp: list_all_iff isFulfilled_iff)
  with ts have "0 < pendingReads t" using promise_ok_pending by blast
  with t(1) have pos: "0 < sum_list (map pendingReads ts)"
    using member_le_sum_list [of "pendingReads t" "map pendingReads ts"] by auto
  have sub: "K \<union> (\<Union>t \<in> set ts. active t) \<subseteq> K \<union> active t'" using t' by auto
  have "promise_ok zp (K \<union> active t') t'"
    using t' look deps pos ts sub promise_ok_mono [OF _ sub] by auto
  moreover have "this_dependencies this' = this_dependencies this @ []" using this' by simp
  ultimately show ?thesis using t' by auto
qed

lemma readCompleted_ok:
  assumes ok: "promise_ok zp K (Reading jsonFile root v pkgPath)"
    and res: "readCompleted zp jsonFile root v pkgPath this = Inr (t', this')"
  shows "(\<exists>new. this_dependencies this' = this_dependencies this @ new \<and>
           active (Reading jsonFile root v pkgPath) \<subseteq> active t' \<union> packagePath ` set new \<and>
           (\<forall>r \<in> set new. described zp r \<and> set (dependencies r) \<subseteq> K \<union> active t') \<and>
           promise_ok zp (K \<union> active t') t') \<and>
         (\<exists>s json. map_of zp jsonFile = Some (Json s json) \<and>
            set (map packagePathOf (json_preloadedDependencies json)) \<subseteq> v \<union> active t')"
proof -
  from res obtain s json where look: "map_of zp jsonFile = Some (Json s json)"
    by (auto simp: readCompleted_def split: option.splits file_content.splits)
  let ?paths = "map packagePathOf (json_preloadedDependencies json)"
  let ?v = "fst (markVisited v ?paths)" and ?ps = "snd (markVisited v ?paths)"
  from res look obtain ts where each: "recurseEach zp ?v ?ps = Inr ts"
    by (auto simp: readCompleted_def split: sum.splits)
  define this1 where "this1 =
    (if root
     then this\<lparr> this_rootConfig := Some json,
                this_library := selectLibrary (json_mainLibrary json)
                  (json_preloadedDependencies json) (this_library this) \<rparr>
     else this)"
  have d1: "this_dependencies this1 = this_dependencies this" by (simp add: this1_def)
  from res look each have pa: "promiseAll pkgPath json ts this1 = (t', this')"
    by (simp add: readCompleted_def this1_def)
  have ts: "ts = map (\<lambda>p. Reading (p @ ''library.json'') False ?v p) ?ps"
    using recurseEach_Inr [OF each] .
  have ne: "p \<noteq> []" if "p \<in> set ?ps" for p
  proof -
    from that have "p \<in> set ?paths" using markVisited_snd [of v ?paths] by blast
    then show ?thesis using packagePathOf_nonempty by auto
  qed
  have act: "(\<Union>t \<in> set ts. active t) = set ?ps"
    unfolding ts using ne by auto
  from ok have reach: "reachable zp jsonFile" by auto
  from ok have vK: "v \<subseteq> K" and jf: "jsonFile = descriptorPath pkgPath" by simp_all
  have vs: "?v = v \<union> set ?ps"
    using markVisited_fst [of v ?paths] markVisited_snd [of v ?paths] by auto
  have child: "promise_ok zp (K \<union> (\<Union>t \<in> set ts. active t)) t" if "t \<in> set ts" for t
  proof -
    from that ts obtain p where p: "p \<in> set ?ps" and t: "t = Reading (p @ ''library.json'') False ?v p"
      by auto
    from p have "p \<in> set ?paths" using markVisited_snd [of v ?paths] by blast
    then obtain d where "d \<in> set (json_preloadedDependencies json)" "p = packagePathOf d" by auto
    with reachable.dep [OF reach look] have "reachable zp (p @ ''library.json'')" by simp
    then show ?thesis using t vs vK act ne [OF p] by (auto simp: descriptorPath_def)
  qed
  have deps: "set ?paths \<subseteq> K \<union> (\<Union>t \<in> set ts. active t)"
    using markVisited_fst [of v ?paths] vs vK act by auto
  have ch: "\<forall>t \<in> set ts. promise_ok zp (K \<union> (\<Union>t \<in> set ts. active t)) t" using child by blast
  have lk: "map_of zp (descriptorPath pkgPath) = Some (Json s json)" using look jf by simp
  from promiseAll_ok [OF ch lk deps pa] d1 jf
  have first: "\<exists>new. this_dependencies this' = this_dependencies this @ new \<and>
           active (Reading jsonFile root v pkgPath) \<subseteq> active t' \<union> packagePath ` set new \<and>
           (\<forall>r \<in> set new. described zp r \<and> set (dependencies r) \<subseteq> K \<union> active t') \<and>
           promise_ok zp (K \<union> active t') t'"
    by auto
  have "set ?paths \<subseteq> v \<union> active t'"
    using markVisited_fst [of v ?paths] vs act promiseAll_active [OF pa] by auto
  with first look show ?thesis by blast
qed

lemma complete_ok:
  "promise_ok zp K t \<Longrightarrow> complete zp k t this = Inr (t', this') \<Longrightarrow>
     \<exists>new. this_dependencies this' = this_dependencies this @ new \<and>
       active t \<subseteq> active t' \<union> packagePath ` set new \<and>
       (\<forall>r \<in> set new. described zp r \<and> set (dependencies r) \<subseteq> K \<union> active t') \<and>
       promise_ok zp (K \<union> active t') t'"
  "\<forall>t \<in> set ts. promise_ok zp K t \<Longrightarrow> completeIn zp k ts this = Inr (ts', this') \<Longrightarrow>
     \<exists>new. this_dependencies this' = this_dependencies this @ new \<and>
       (\<Union>t \<in> set ts. active t) \<subseteq> (\<Union>t \<in> set ts'. active t) \<union> packagePath ` set new \<and>
       (\<forall>r \<in> set new. described zp r \<and> set (dependencies r) \<subseteq> K \<union> (\<Union>t \<in> set ts'. active t)) \<and>
       (\<forall>t \<in> set ts'. promise_ok zp (K \<union> (\<Union>t \<in> set ts'. active t)) t)"
proof (induction zp k t this and zp k ts this arbitrary: t' this' and ts' this'
    rule: complete_completeIn.induct)
  case (1 zp k jsonFile root visitedPaths pkgPath this)
  from readCompleted_ok [OF 1(1)] 1(2) show ?case by simp
next
  case (2 zp k pkgPath json ts this)
  from 2(3) obtain ts1 this1 where c: "completeIn zp k ts this = Inr (ts1, this1)"
    and pa: "promiseAll pkgPath json ts1 this1 = (t', this')"
    by (auto split: sum.splits)
  from 2(2) obtain s where look: "map_of zp (descriptorPath pkgPath) = Some (Json s json)"
    and deps: "set (map packagePathOf (json_preloadedDependencies json)) \<subseteq> K"
    and kids: "\<forall>t \<in> set ts. promise_ok zp K t" by auto
  from 2(1) [OF kids c] obtain new1
    where d1: "this_dependencies this1 = this_dependencies this @ new1"
      and a1: "(\<Union>t \<in> set ts. active t) \<subseteq> (\<Union>t \<in> set ts1. active t) \<union> packagePath ` set new1"
      and r1: "\<forall>r \<in> set new1. described zp r \<and> set (dependencies r) \<subseteq> K \<union> (\<Union>t \<in> set ts1. active t)"
      and k1: "\<forall>t \<in> set ts1. promise_ok zp (K \<union> (\<Union>t \<in> set ts1. active t)) t"
    by blast
  have deps1: "set (map packagePathOf (json_preloadedDependencies json)) \<subseteq> K \<union> (\<Union>t \<in> set ts1. active t)"
    using deps by auto
  from promiseAll_ok [OF k1 look deps1 pa] obtain new2
    where d2: "this_dependencies this' = this_dependencies this1 @ new2"
      and a2: "(if pkgPath = [] then {} else {pkgPath}) \<union> (\<Union>t \<in> set ts1. active t)
                 \<subseteq> active t' \<union> packagePath ` set new2"
      and r2: "\<forall>r \<in> set new2. described zp r \<and> set (dependencies r) \<subseteq> K \<union> active t'"
      and k2: "promise_ok zp (K \<union> active t') t'"
    by blast
  have sub: "(\<Union>t \<in> set ts1. active t) \<subseteq> active t'" using promiseAll_active [OF pa] .
  have "this_dependencies this' = this_dependencies this @ (new1 @ new2)" using d1 d2 by simp
  moreover have "active (Waiting pkgPath json ts) \<subseteq> active t' \<union> packagePath ` set (new1 @ new2)"
    using a1 a2 by (auto split: if_splits)
  moreover have "\<forall>r \<in> set (new1 @ new2). described zp r \<and> set (dependencies r) \<subseteq> K \<union> active t'"
  proof
    fix r assume "r \<in> set (new1 @ new2)"
    then have "r \<in> set new1 \<or> r \<in> set new2" by simp
    then show "described zp r \<and> set (dependencies r) \<subseteq> K \<union> active t'"
    proof
      assume "r \<in> set new1"
      with r1 have "described zp r" and "set (dependencies r) \<subseteq> K \<union> (\<Union>t \<in> set ts1. active t)" by auto
      with sub show ?thesis by blast
    next
      assume "r \<in> set new2"
      with r2 show ?thesis by blast
    qed
  qed
  ultimately show ?case using k2 by blast
next
  case (3 zp k this)
  then have "this_dependencies this' = this_dependencies this @ []" and "t' = Fulfilled" by auto
  then show ?case by auto
next
  case (4 zp k this)
  then have "this_dependencies this' = this_dependencies this @ []" and "ts' = []" by auto
  then show ?case by auto
next
  case (5 zp k t ts this)
  show ?case
  proof (cases "k < pendingReads t")
    case True
    with 5(4) obtain t1 where c: "complete zp k t this = Inr (t1, this')" and ts': "ts' = t1 # ts"
      by (auto split: sum.splits)
    from 5(3) have okt: "promise_ok zp K t" and rest: "\<forall>u \<in> set ts. promise_ok zp K u" by auto
    from 5(1) [OF True okt c] obtain new
      where d: "this_dependencies this' = this_dependencies this @ new"
        and a: "active t \<subseteq> active t1 \<union> packagePath ` set new"
        and r: "\<forall>r \<in> set new. described zp r \<and> set (dependencies r) \<subseteq> K \<union> active t1"
        and k: "promise_ok zp (K \<union> active t1) t1"
      by blast
    let ?K = "K \<union> (\<Union>u \<in> set ts'. active u)"
    have "promise_ok zp ?K t1" using promise_ok_mono [OF k] ts' by auto
    moreover have "\<forall>u \<in> set ts. promise_ok zp ?K u" using rest promise_ok_mono by blast
    ultimately have "\<forall>u \<in> set ts'. promise_ok zp ?K u" using ts' by auto
    moreover have "(\<Union>u \<in> set (t # ts). active u) \<subseteq> (\<Union>u \<in> set ts'. active u) \<union> packagePath ` set new"
      using a ts' by auto
    moreover have "\<forall>r \<in> set new. described zp r \<and> set (dependencies r) \<subseteq> ?K"
      using r ts' by auto
    ultimately show ?thesis using d by blast
  next
    case False
    with 5(4) obtain ts1 where c: "completeIn zp (k - pendingReads t) ts this = Inr (ts1, this')"
      and ts': "ts' = t # ts1"
      by (auto split: sum.splits)
    from 5(3) have okt: "promise_ok zp K t" and rest: "\<forall>u \<in> set ts. promise_ok zp K u" by auto
    from 5(2) [OF False rest c] obtain new
      where d: "this_dependencies this' = this_dependencies this @ new"
        and a: "(\<Union>u \<in> set ts. active u) \<subseteq> (\<Union>u \<in> set ts1. active u) \<union> packagePath ` set new"
        and r: "\<forall>r \<in> set new. described zp r \<and> set (dependencies r) \<subseteq> K \<union> (\<Union>u \<in> set ts1. active u)"
        and k: "\<forall>u \<in> set ts1. promise_ok zp (K \<union> (\<Union>u \<in> set ts1. active u)) u"
      by blast
    let ?K = "K \<union> (\<Union>u \<in> set ts'. active u)"
    have sub: "K \<union> (\<Union>u \<in> set ts1. active u) \<subseteq> ?K" using ts' by auto
    have "promise_ok zp ?K t" using promise_ok_mono [OF okt] by auto
    moreover have "\<forall>u \<in> set ts1. promise_ok zp ?K u" using k promise_ok_mono [OF _ sub] by blast
    ultimately have "\<forall>u \<in> set ts'. promise_ok zp ?K u" using ts' by auto
    moreover have "(\<Union>u \<in> set (t # ts). active u) \<subseteq> (\<Union>u \<in> set ts'. active u) \<union> packagePath ` set new"
      using a ts' by auto
    moreover have "\<forall>r \<in> set new. described zp r \<and> set (dependencies r) \<subseteq> ?K"
      using r sub by blast
    ultimately show ?thesis using d by blast
  qed
qed

lemma complete_errors:
  "(\<And>g s. reachable zp g \<Longrightarrow> map_of zp g \<noteq> Some (Bytes s)) \<Longrightarrow> promise_ok zp K t \<Longrightarrow>
     complete zp k t this = Inl e \<Longrightarrow> e = EntryNotFound"
  "(\<And>g s. reachable zp g \<Longrightarrow> map_of zp g \<noteq> Some (Bytes s)) \<Longrightarrow> \<forall>t \<in> set ts. promise_ok zp K t \<Longrightarrow>
     completeIn zp k ts this = Inl e \<Longrightarrow> e = EntryNotFound"
proof (induction zp k t this and zp k ts this rule: complete_completeIn.induct)
  case (1 zp k jsonFile root visitedPaths pkgPath this)
  from 1(2) have "reachable zp jsonFile" by auto
  with 1(1) have "map_of zp jsonFile \<noteq> Some (Bytes s)" for s by blast
  with 1(3) show ?case
    by (auto simp: readCompleted_def split: option.splits file_content.splits sum.splits
        dest: recurseEach_Inl)
next
  case (2 zp k pkgPath json ts this)
  from 2(4) have "completeIn zp k ts this = Inl e" by (auto split: sum.splits)
  with 2(1) [OF 2(2)] 2(3) show ?case by simp
next
  case (3 zp k this)
  then show ?case by simp
next
  case (4 zp k this)
  then show ?case by simp
next
  case (5 zp k t ts this)
  show ?case
  proof (cases "k < pendingReads t")
    case True
    with 5(5) have "complete zp k t this = Inl e" by (auto split: sum.splits)
    with 5(1) [OF True 5(3)] 5(4) show ?thesis by simp
  next
    case False
    with 5(5) have "completeIn zp (k - pendingReads t) ts this = Inl e" by (auto split: sum.splits)
    with 5(2) [OF False 5(3)] 5(4) show ?thesis by simp
  qed
qed

lemma resolving_step:
  assumes "resolving zp t this" and "complete zp k t this = Inr (t', this')"
  shows "resolving zp t' this'"
proof -
  let ?K = "known this t"
  from assms(1) have ok: "promise_ok zp ?K t"
    and recs: "\<forall>r \<in> set (this_dependencies this). described zp r \<and> set (dependencies r) \<subseteq> ?K"
    and root: "t = Reading ''h5p.json'' True {} [] \<or>
       (\<exists>s json. map_of zp ''h5p.json'' = Some (Json s json) \<and>
          set (map packagePathOf (json_preloadedDependencies json)) \<subseteq> ?K)"
    by (simp_all add: resolving_def)
  from complete_ok(1) [OF ok assms(2)] obtain new
    where d: "this_dependencies this' = this_dependencies this @ new"
      and a: "active t \<subseteq> active t' \<union> packagePath ` set new"
      and r: "\<forall>r \<in> set new. described zp r \<and> set (dependencies r) \<subseteq> ?K \<union> active t'"
      and k: "promise_ok zp (?K \<union> active t') t'"
    by blast
  have sub: "?K \<union> active t' \<subseteq> known this' t'" using a d by (auto simp: known_def)
  have "promise_ok zp (known this' t') t'" using promise_ok_mono [OF k sub] .
  moreover have "\<forall>r \<in> set (this_dependencies this'). described zp r \<and> set (dependencies r) \<subseteq> known this' t'"
  proof
    fix x assume "x \<in> set (this_dependencies this')"
    with d have "x \<in> set (this_dependencies this) \<or> x \<in> set new" by simp
    then show "described zp x \<and> set (dependencies x) \<subseteq> known this' t'"
    proof
      assume "x \<in> set (this_dependencies this)"
      with recs have "described zp x" and "set (dependencies x) \<subseteq> ?K" by auto
      with sub show ?thesis by blast
    next
      assume "x \<in> set new"
      with r have "described zp x" and "set (dependencies x) \<subseteq> ?K \<union> active t'" by auto
      with sub show ?thesis by blast
    qed
  qed
  moreover have "\<exists>s json. map_of zp ''h5p.json'' = Some (Json s json) \<and>
          set (map packagePathOf (json_preloadedDependencies json)) \<subseteq> known this' t'"
    using root
  proof
    assume t: "t = Reading ''h5p.json'' True {} []"
    with ok assms(2) readCompleted_ok [of zp ?K "''h5p.json''" True "{}" "[]" this t' this']
    obtain s json where "map_of zp ''h5p.json'' = Some (Json s json)"
      "set (map packagePathOf (json_preloadedDependencies json)) \<subseteq> active t'"
      by auto
    then show ?thesis by (auto simp: known_def)
  next
    assume "\<exists>s json. map_of zp ''h5p.json'' = Some (Json s json) \<and>
          set (map packagePathOf (json_preloadedDependencies json)) \<subseteq> ?K"
    then show ?thesis using sub by blast
  qed
  ultimately show ?thesis by (simp add: resolving_def)
qed

lemma awaitReads_closed:
  "resolving zp t this \<Longrightarrow> awaitReads zp sched i t this = Inr this' \<Longrightarrow>
     (\<exists>s json. map_of zp ''h5p.json'' = Some (Json s json) \<and>
        set (map packagePathOf (json_preloadedDependencies json)) \<subseteq> packagePath ` set (this_dependencies this')) \<and>
     (\<forall>r \<in> set (this_dependencies this'). described zp r \<and>
        set (dependencies r) \<subseteq> packagePath ` set (this_dependencies this'))"
proof (induction zp sched i t this rule: awaitReads.induct)
  case (1 zp sched i t this)
  show ?case
  proof (cases "pendingReads t = 0")
    case True
    from 1(2) have "promise_ok zp (known this t) t" by (simp add: resolving_def)
    with True have t: "t = Fulfilled" using promise_ok_pending by fastforce
    from True 1(3) have "this' = this" by (simp add: awaitReads.simps)
    with 1(2) t show ?thesis by (simp add: resolving_def known_def)
  next
    case False
    with 1(3) obtain t1 this1
      where c: "complete zp (sched i mod pendingReads t) t this = Inr (t1, this1)"
        and a: "awaitReads zp sched (Suc i) t1 this1 = Inr this'"
      by (auto simp: awaitReads.simps [of zp sched i t this] split: sum.splits)
    from 1(1) [OF False c refl resolving_step [OF 1(2) c] a] show ?thesis .
  qed
qed

lemma awaitReads_errors:
  "(\<And>g s. reachable zp g \<Longrightarrow> map_of zp g \<noteq> Some (Bytes s)) \<Longrightarrow> resolving zp t this \<Longrightarrow>
     awaitReads zp sched i t this = Inl e \<Longrightarrow> e = EntryNotFound"
proof (induction zp sched i t this rule: awaitReads.induct)
  case (1 zp sched i t this)
  from 1(4) have pending: "pendingReads t \<noteq> 0"
    by (auto simp: awaitReads.simps [of zp sched i t this] split: if_splits)
  show ?case
  proof (cases "complete zp (sched i mod pendingReads t) t this")
    case (Inl e')
    with pending 1(4) have "e' = e" by (simp add: awaitReads.simps [of zp sched i t this])
    moreover from 1(3) have "promise_ok zp (known this t) t" by (simp add: resolving_def)
    ultimately show ?thesis using complete_errors(1) [OF 1(2) _ Inl] by blast
  next
    case (Inr r)
    obtain t1 this1 where r: "r = (t1, this1)" by (cases r)
    with Inr pending 1(4) have a: "awaitReads zp sched (Suc i) t1 this1 = Inl e"
      by (simp add: awaitReads.simps [of zp sched i t this])
    from Inr r have c: "complete zp (sched i mod pendingReads t) t this = Inr (t1, this1)" by simp
    from 1(1) [OF pending c refl 1(2) resolving_step [OF 1(3) c] a] show ?thesis .
  qed
qed

lemma resolving_start:
  "map_of zp ''h5p.json'' \<noteq> None \<Longrightarrow> resolving zp (Reading ''h5p.json'' True {} []) init_runner"
  by (simp add: resolving_def descriptorPath_def reachable.root init_runner_def)

lemma resolve_closed:
  assumes "resolve sched zp = Inr this"
  shows "(\<exists>s json. map_of zp ''h5p.json'' = Some (Json s json) \<and>
            set (map packagePathOf (json_preloadedDependencies json)) \<subseteq> packagePath ` set (this_dependencies this)) \<and>
         (\<forall>r \<in> set (this_dependencies this). described zp r \<and>
            set (dependencies r) \<subseteq> packagePath ` set (this_dependencies this))"
proof -
  from assms have look: "map_of zp ''h5p.json'' \<noteq> None"
    and a: "awaitReads zp sched 0 (Reading ''h5p.json'' True {} []) init_runner = Inr this"
    by (auto simp: resolve_def recurseDependencies_def split: option.splits)
  from awaitReads_closed [OF resolving_start [OF look] a] show ?thesis .
qed

lemma resolve_errors:
  assumes "\<And>g s. reachable zp g \<Longrightarrow> map_of zp g \<noteq> Some (Bytes s)" and "resolve sched zp = Inl e"
  shows "e = EntryNotFound"
proof (cases "map_of zp ''h5p.json''")
  case None
  with assms(2) show ?thesis by (simp add: resolve_def recurseDependencies_def)
next
  case (Some c)
  with assms(2) have a: "awaitReads zp sched 0 (Reading ''h5p.json'' True {} []) init_runner = Inl e"
    by (simp add: resolve_def recurseDependencies_def)
  from Some have "map_of zp ''h5p.json'' \<noteq> None" by simp
  from awaitReads_errors [OF assms(1) resolving_start [OF this] a] show ?thesis by simp
qed

subsection \<open>A missing descriptor\<close>

lemma reachable_recorded:
  assumes "resolve sched zp = Inr this" and "reachable zp f"
  shows "f = ''h5p.json'' \<or> (\<exists>r \<in> set (this_dependencies this). f = packagePath r @ ''library.json'')"
  using assms(2)
proof (induction rule: reachable.induct)
  case root
  show ?case by simp
next
  case (dep f s json d)
  from resolve_closed [OF assms(1)] obtain s0 json0
    where root: "map_of zp ''h5p.json'' = Some (Json s0 json0)"
      "set (map packagePathOf (json_preloadedDependencies json0)) \<subseteq> packagePath ` set (this_dependencies this)"
    and recs: "\<forall>r \<in> set (this_dependencies this). described zp r \<and>
            set (dependencies r) \<subseteq> packagePath ` set (this_dependencies this)"
    by blast
  from dep.IH have "packagePathOf d \<in> packagePath ` set (this_dependencies this)"
  proof
    assume "f = ''h5p.json''"
    with dep.hyps(2) root(1) have "json0 = json" by simp
    with root(2) dep.hyps(3) show ?thesis by auto
  next
    assume "\<exists>r \<in> set (this_dependencies this). f = packagePath r @ ''library.json''"
    then obtain r where r: "r \<in> set (this_dependencies this)" "f = packagePath r @ ''library.json''"
      by blast
    with recs dep.hyps(2) have "dependencies r = map packagePathOf (json_preloadedDependencies json)"
      by (auto simp: described_def)
    with dep.hyps(3) have "packagePathOf d \<in> set (dependencies r)" by simp
    moreover have "set (dependencies r) \<subseteq> packagePath ` set (this_dependencies this)"
      using recs r(1) by blast
    ultimately show ?thesis by blast
  qed
  then show ?case by auto
qed

lemma reachable_present:
  assumes "resolve sched zp = Inr this" and "reachable zp f"
  shows "map_of zp f \<noteq> None"
proof -
  from resolve_closed [OF assms(1)] reachable_recorded [OF assms]
  show ?thesis by (auto simp: described_def)
qed

lemma init_run_rejected:
  assumes "\<And>sched. \<exists>e. prepare pathname sched zp = Inl e" and "init_run pathname zp tr"
  shows "tr = []"
  using assms(2)
proof (induction rule: init_run.induct)
  case not_started
  show ?case by simp
next
  case (loading sched this tr s)
  with assms(1) [of sched] show ?case by simp
qed

lemma missing_descriptor_rejects:
  assumes "reachable zp f" and "map_of zp f = None"
  shows "\<exists>e. resolve sched zp = Inl e \<and> prepare pathname sched zp = Inl e \<and>
           ((\<forall>g s. reachable zp g \<longrightarrow> map_of zp g \<noteq> Some (Bytes s)) \<longrightarrow> e = EntryNotFound)"
proof (cases "resolve sched zp")
  case (Inr this)
  from reachable_present [OF Inr assms(1)] assms(2) show ?thesis by simp
next
  case (Inl e)
  have "e = EntryNotFound" if "\<forall>g s. reachable zp g \<longrightarrow> map_of zp g \<noteq> Some (Bytes s)"
    using resolve_errors [of zp sched e] that Inl by blast
  with Inl show ?thesis by (simp add: prepare_def)
qed

text \<open>
  C8 at an archive in which the root depends on \<open>A\<close> and \<open>C\<close>, the descriptor of \<open>A\<close> is
  not JSON, and \<open>C\<close> declares the dependency \<open>X\<close> whose \<^verbatim>\<open>library.json\<close> is absent, when
  the reads complete in the order in which they were started: the load is rejected by
  the parse error of the descriptor of \<open>A\<close>, not by the missing entry.
\<close>

theorem missing_descriptor_other_error_counterexample:
  "reachable twoFaultsArchive ''C-1.0/library.json'' \<and>
   map_of twoFaultsArchive ''C-1.0/library.json'' = Some (descriptorFile [libraryRef ''X'']) \<and>
   map_of twoFaultsArchive (packagePathOf (libraryRef ''X'') @ ''library.json'') = None \<and>
   prepare (\<lambda>dep ref. Some ref) (\<lambda>i. 0) twoFaultsArchive = Inl DescriptorParseError"
proof -
  have c: "packagePathOf (libraryRef ''C'') @ ''library.json'' = ''C-1.0/library.json''"
    by (simp add: packagePathOf_def libraryRef_def)
  have "reachable twoFaultsArchive (packagePathOf (libraryRef ''C'') @ ''library.json'')"
    by (rule reachable.dep [OF reachable.root, where json = "descriptorOf [libraryRef ''A'', libraryRef ''C'']"])
      (simp_all add: twoFaultsArchive_def descriptorFile_def descriptorOf_def)
  then have "reachable twoFaultsArchive ''C-1.0/library.json''" by (simp only: c)
  moreover have "map_of twoFaultsArchive ''C-1.0/library.json'' = Some (descriptorFile [libraryRef ''X''])"
    by (simp add: twoFaultsArchive_def)
  moreover have "map_of twoFaultsArchive (packagePathOf (libraryRef ''X'') @ ''library.json'') = None"
    by (simp add: twoFaultsArchive_def packagePathOf_def libraryRef_def)
  moreover have "prepare (\<lambda>dep ref. Some ref) (\<lambda>i. 0) twoFaultsArchive = Inl DescriptorParseError"
    by (simp add: prepare_def resolve_def recurseDependencies_def awaitReads.simps readCompleted_def promiseAll_def
        pushDependency_def twoFaultsArchive_def
        descriptorFile_def descriptorOf_def packagePathOf_def libraryRef_def init_runner_def)
  ultimately show ?thesis by blast
qed

text \<open>
  C8 (amended): if a descriptor reached from \<^verbatim>\<open>h5p.json\<close> declares a dependency whose
  \<^verbatim>\<open>library.json\<close> is absent from the archive, then in whatever order the reads
  complete the overall load is rejected and no style or script tier is ever executed
  (\<^verbatim>\<open>initH5P\<close> and \<^verbatim>\<open>loadDependencies\<close> are not reached); the rejection is the one of the
  missing entry when no descriptor reached is malformed.
\<close>

theorem missing_descriptor_aborts_load:
  assumes "reachable zp g" and "map_of zp g = Some (Json s json)"
    and "d \<in> set (json_preloadedDependencies json)"
    and "map_of zp (packagePathOf d @ ''library.json'') = None"
  shows "\<exists>e. prepare pathname sched zp = Inl e \<and>
           ((\<forall>g s. reachable zp g \<longrightarrow> map_of zp g \<noteq> Some (Bytes s)) \<longrightarrow> e = EntryNotFound) \<and>
           (\<forall>tr. init_run pathname zp tr \<longrightarrow> tr = [])"
proof -
  have r: "reachable zp (packagePathOf d @ ''library.json'')"
    using reachable.dep [OF assms(1,2,3)] .
  from missing_descriptor_rejects [OF r assms(4), of sched pathname] obtain e
    where e: "prepare pathname sched zp = Inl e"
      "(\<forall>g s. reachable zp g \<longrightarrow> map_of zp g \<noteq> Some (Bytes s)) \<longrightarrow> e = EntryNotFound"
    by blast
  have "\<exists>e. prepare pathname sched' zp = Inl e" for sched'
    using missing_descriptor_rejects [OF r assms(4), of sched' pathname] by blast
  then have "\<forall>tr. init_run pathname zp tr \<longrightarrow> tr = []"
    using init_run_rejected [of pathname zp] by blast
  with e show ?thesis by blast
qed

theorem missing_descriptor_aborts_load_witness:
  "reachable missingArchive ''A-1.0/library.json'' \<and>
   map_of missingArchive ''A-1.0/library.json'' = Some (Json [] (descriptorOf [libraryRef ''X''])) \<and>
   libraryRef ''X'' \<in> set (json_preloadedDependencies (descriptorOf [libraryRef ''X''])) \<and>
   map_of missingArchive (packagePathOf (libraryRef ''X'') @ ''library.json'') = None \<and>
   (\<forall>sched. prepare (\<lambda>dep ref. Some ref) sched missingArchive = Inl EntryNotFound) \<and>
   Collect (init_run (\<lambda>dep ref. Some ref) missingArchive) = {[]}"
proof -
  have a: "packagePathOf (libraryRef ''A'') @ ''library.json'' = ''A-1.0/library.json''"
    by (simp add: packagePathOf_def libraryRef_def)
  have "reachable missingArchive (packagePathOf (libraryRef ''A'') @ ''library.json'')"
    by (rule reachable.dep [OF reachable.root, where json = "descriptorOf [libraryRef ''A'']"])
      (simp_all add: missingArchive_def descriptorFile_def descriptorOf_def)
  then have r: "reachable missingArchive ''A-1.0/library.json''" by (simp only: a)
  have m: "map_of missingArchive ''A-1.0/library.json'' = Some (Json [] (descriptorOf [libraryRef ''X'']))"
    by (simp add: missingArchive_def descriptorFile_def)
  have d: "libraryRef ''X'' \<in> set (json_preloadedDependencies (descriptorOf [libraryRef ''X'']))"
    by (simp add: descriptorOf_def)
  have x: "map_of missingArchive (packagePathOf (libraryRef ''X'') @ ''library.json'') = None"
    by (simp add: missingArchive_def packagePathOf_def libraryRef_def)
  have wf: "\<forall>g s. reachable missingArchive g \<longrightarrow> map_of missingArchive g \<noteq> Some (Bytes s)"
    by (auto simp: missingArchive_def descriptorFile_def split: if_splits)
  have "prepare (\<lambda>dep ref. Some ref) sched missingArchive = Inl EntryNotFound" for sched
    using missing_descriptor_aborts_load [OF r m d x, of "\<lambda>dep ref. Some ref" sched] wf by auto
  moreover have "\<forall>tr. init_run (\<lambda>dep ref. Some ref) missingArchive tr \<longrightarrow> tr = []"
    using missing_descriptor_aborts_load [OF r m d x, of "\<lambda>dep ref. Some ref"] by blast
  moreover have "init_run (\<lambda>dep ref. Some ref) missingArchive []" by (rule init_run.not_started)
  ultimately have "\<forall>sched. prepare (\<lambda>dep ref. Some ref) sched missingArchive = Inl EntryNotFound"
    and "Collect (init_run (\<lambda>dep ref. Some ref) missingArchive) = {[]}"
    by auto
  with r m d x show ?thesis by blast
qed

subsection \<open>The order of the loads\<close>

lemma loadsBefore_Suc: "loadsBefore k plan (Suc j) = loadsBefore k plan j @ loadsOf k plan j"
  by (simp add: loadsBefore_def)

lemma loadsOf_tier: "l \<in> set (loadsOf k plan i) \<Longrightarrow> \<exists>key. l = (k, i, key)"
  by (auto simp: loadsOf_def tierLoads_def)

lemma style_tier_loaded:
  "l \<in> set (loadsOf Style css i) \<Longrightarrow>
     Loaded l \<in> set (concat (map (\<lambda>(l, url). [Started l url, Loaded l]) (tierLoads Style css i)))"
  by (force simp: loadsOf_def)

lemma split_trace:
  assumes "tr @ evs = xs @ e # ys"
  shows "(\<exists>ys'. tr = xs @ e # ys') \<or> (e \<in> set evs \<and> set tr \<subseteq> set xs)"
proof -
  from assms obtain us where "tr = xs @ us \<and> us @ evs = e # ys \<or> tr @ us = xs \<and> evs = us @ e # ys"
    by (auto simp: append_eq_append_conv2)
  then show ?thesis
  proof
    assume a: "tr = xs @ us \<and> us @ evs = e # ys"
    show ?thesis
    proof (cases us)
      case Nil
      with a show ?thesis by auto
    next
      case (Cons u us')
      with a show ?thesis by auto
    qed
  next
    assume "tr @ us = xs \<and> evs = us @ e # ys"
    then show ?thesis by auto
  qed
qed

lemma ordered_append:
  assumes "ordered css js tr" and "\<And>e. e \<in> set evs \<Longrightarrow> set (needs css js e) \<subseteq> set tr"
  shows "ordered css js (tr @ evs)"
  unfolding ordered_def
proof (intro allI impI)
  fix xs e ys assume "tr @ evs = xs @ e # ys"
  from split_trace [OF this] show "set (needs css js e) \<subseteq> set xs"
  proof
    assume "\<exists>ys'. tr = xs @ e # ys'"
    with assms(1) show ?thesis by (auto simp: ordered_def)
  next
    assume "e \<in> set evs \<and> set tr \<subseteq> set xs"
    with assms(2) [of e] show ?thesis by auto
  qed
qed

lemma tierLoads_elem: "(l, url) \<in> set (tierLoads k plan i) \<Longrightarrow> l \<in> set (loadsOf k plan i)"
  by (force simp: loadsOf_def)

lemma style_tier_event_cases:
  assumes "e \<in> set (concat (map (\<lambda>(l, url). [Started l url, Loaded l]) (tierLoads Style css i)))"
  shows "(\<exists>key url. e = Started (Style, i, key) url) \<or> (\<exists>key. e = Loaded (Style, i, key))"
  using assms by (auto simp: tierLoads_def)

lemma script_tier_event_cases:
  assumes "e \<in> set (map (\<lambda>(l, url). Started l url) (tierLoads Script js i))"
  shows "\<exists>key url. e = Started (Script, i, key) url"
  using assms by (auto simp: tierLoads_def)

lemma needs_style_started:
  "set (needs css js (Started (Style, i, key) url)) = Loaded ` set (loadsBefore Style css i)"
  by (simp add: planOf_def)

lemma needs_script_started:
  "set (needs css js (Started (Script, j, key) url)) =
     Loaded ` set (loadsBefore Script js j) \<union> Loaded ` set (loadsBefore Style css (length css))"
  by (simp add: planOf_def)

lemma needs_script_loaded:
  "set (needs css js (Loaded (Script, i, key))) = (\<lambda>(l, url). Started l url) ` set (tierLoads Script js i)"
  by simp

lemma pending_style: "loader_inv css js tr s \<Longrightarrow> phase s = Style \<Longrightarrow> pending s = []"
  by (cases "pending s") (auto simp: loader_inv_def)

lemma loader_invI:
  assumes "\<And>l. l \<in> set (pending s) \<Longrightarrow> phase s = Script \<and> 0 < tier s \<and> l \<in> set (loadsOf Script js (tier s - 1))"
    and "phase s = Style \<Longrightarrow> \<not> rejected s \<and> tier s \<le> length css \<and>
         Loaded ` set (loadsBefore Style css (tier s)) \<subseteq> set tr"
    and "phase s = Script \<Longrightarrow> tier s \<le> length js \<and>
         Loaded ` set (loadsBefore Style css (length css)) \<subseteq> set tr \<and>
         Loaded ` set (loadsBefore Script js (tier s - 1)) \<subseteq> set tr \<and>
         (\<lambda>(l, url). Started l url) ` (\<Union>i<tier s. set (tierLoads Script js i)) \<subseteq> set tr"
    and "\<And>l. phase s = Script \<Longrightarrow> \<not> rejected s \<Longrightarrow> 0 < tier s \<Longrightarrow>
         l \<in> set (loadsOf Script js (tier s - 1)) \<Longrightarrow> l \<in> set (pending s) \<or> Loaded l \<in> set tr"
  shows "loader_inv css js tr s"
  unfolding loader_inv_def
proof (intro conjI ballI impI)
  fix l assume "l \<in> set (pending s)"
  from assms(1) [OF this] show "phase s = Script" "0 < tier s" "l \<in> set (loadsOf Script js (tier s - 1))"
    by simp_all
next
  assume "phase s = Style"
  from assms(2) [OF this] show "\<not> rejected s" "tier s \<le> length css"
    "Loaded ` set (loadsBefore Style css (tier s)) \<subseteq> set tr" by simp_all
next
  assume "phase s = Script"
  from assms(3) [OF this] show "tier s \<le> length js"
    "Loaded ` set (loadsBefore Style css (length css)) \<subseteq> set tr"
    "Loaded ` set (loadsBefore Script js (tier s - 1)) \<subseteq> set tr"
    "(\<lambda>(l, url). Started l url) ` (\<Union>i<tier s. set (tierLoads Script js i)) \<subseteq> set tr"
    by simp_all
next
  fix l assume "phase s = Script" "\<not> rejected s" "0 < tier s" "l \<in> set (loadsOf Script js (tier s - 1))"
  then show "l \<in> set (pending s) \<or> Loaded l \<in> set tr" by (rule assms(4))
qed

lemma loader_inv_pending:
  "loader_inv css js tr s \<Longrightarrow> l \<in> set (pending s) \<Longrightarrow>
     phase s = Script \<and> 0 < tier s \<and> l \<in> set (loadsOf Script js (tier s - 1))"
  by (simp add: loader_inv_def)

lemma loader_inv_style:
  "loader_inv css js tr s \<Longrightarrow> phase s = Style \<Longrightarrow>
     \<not> rejected s \<and> tier s \<le> length css \<and> Loaded ` set (loadsBefore Style css (tier s)) \<subseteq> set tr"
  by (simp add: loader_inv_def)

lemma loader_inv_script:
  "loader_inv css js tr s \<Longrightarrow> phase s = Script \<Longrightarrow>
     tier s \<le> length js \<and>
     Loaded ` set (loadsBefore Style css (length css)) \<subseteq> set tr \<and>
     Loaded ` set (loadsBefore Script js (tier s - 1)) \<subseteq> set tr \<and>
     (\<lambda>(l, url). Started l url) ` (\<Union>i<tier s. set (tierLoads Script js i)) \<subseteq> set tr"
  by (simp add: loader_inv_def)

lemma loader_inv_current:
  "loader_inv css js tr s \<Longrightarrow> phase s = Script \<Longrightarrow> \<not> rejected s \<Longrightarrow> 0 < tier s \<Longrightarrow>
     l \<in> set (loadsOf Script js (tier s - 1)) \<Longrightarrow> l \<in> set (pending s) \<or> Loaded l \<in> set tr"
  by (simp add: loader_inv_def)

lemma loader_step_inv:
  assumes "loader_step css js s evs s'" and "loader_inv css js tr s"
  shows "loader_inv css js (tr @ evs) s' \<and> (\<forall>e \<in> set evs. set (needs css js e) \<subseteq> set tr)"
  using assms
proof (induction rule: loader_step.induct)
  case (style_tier s)
  let ?evs = "concat (map (\<lambda>(l, url). [Started l url, Loaded l]) (tierLoads Style css (tier s)))"
  from loader_inv_style [OF style_tier(3,1)]
  have before: "Loaded ` set (loadsBefore Style css (tier s)) \<subseteq> set tr" and nr: "\<not> rejected s" by auto
  have p: "pending s = []" using pending_style style_tier by blast
  have after: "Loaded ` set (loadsBefore Style css (Suc (tier s))) \<subseteq> set (tr @ ?evs)"
    using before style_tier_loaded [of _ css "tier s"] by (auto simp: loadsBefore_Suc)
  have inv: "loader_inv css js (tr @ ?evs) (s\<lparr> tier := Suc (tier s) \<rparr>)"
  proof (rule loader_invI)
    show "phase (s\<lparr>tier := Suc (tier s)\<rparr>) = Style \<Longrightarrow>
        \<not> rejected (s\<lparr>tier := Suc (tier s)\<rparr>) \<and> tier (s\<lparr>tier := Suc (tier s)\<rparr>) \<le> length css \<and>
        Loaded ` set (loadsBefore Style css (tier (s\<lparr>tier := Suc (tier s)\<rparr>))) \<subseteq> set (tr @ ?evs)"
      using nr style_tier(2) after by simp
  qed (use p style_tier(1) in simp_all)
  have "set (needs css js e) \<subseteq> set tr" if "e \<in> set ?evs" for e
    using style_tier_event_cases [OF that] before by (auto simp: planOf_def image_subset_iff)
  with inv show ?case by blast
next
  case (styles_done s)
  have p: "pending s = []" using pending_style styles_done by blast
  from loader_inv_style [OF styles_done(3,1)] styles_done(2)
  have css: "Loaded ` set (loadsBefore Style css (length css)) \<subseteq> set tr" by simp
  have "loader_inv css js (tr @ []) (s\<lparr> phase := Script, tier := 0 \<rparr>)"
    by (rule loader_invI) (use p css in \<open>simp_all add: loadsBefore_def\<close>)
  then show ?case by simp
next
  case (script_tier s)
  let ?evs = "map (\<lambda>(l, url). Started l url) (tierLoads Script js (tier s))"
  from loader_inv_script [OF script_tier(5,1)]
  have css: "Loaded ` set (loadsBefore Style css (length css)) \<subseteq> set tr"
    and before1: "Loaded ` set (loadsBefore Script js (tier s - 1)) \<subseteq> set tr"
    and started: "(\<lambda>(l, url). Started l url) ` (\<Union>i<tier s. set (tierLoads Script js i)) \<subseteq> set tr"
    by auto
  have cur: "Loaded l \<in> set tr" if "0 < tier s" "l \<in> set (loadsOf Script js (tier s - 1))" for l
    using loader_inv_current [OF script_tier(5,1,2) that] script_tier(3) by simp
  have before: "Loaded ` set (loadsBefore Script js (tier s)) \<subseteq> set tr"
  proof (cases "tier s")
    case 0
    then show ?thesis by (simp add: loadsBefore_def)
  next
    case (Suc n)
    with before1 cur show ?thesis by (auto simp: loadsBefore_Suc)
  qed
  have started': "(\<lambda>(l, url). Started l url) ` (\<Union>i<Suc (tier s). set (tierLoads Script js i)) \<subseteq> set (tr @ ?evs)"
    using started by (auto simp: lessThan_Suc)
  have inv: "loader_inv css js (tr @ ?evs) (s\<lparr> tier := Suc (tier s), pending := loadsOf Script js (tier s) \<rparr>)"
  proof (rule loader_invI)
    show "phase (s\<lparr>tier := Suc (tier s), pending := loadsOf Script js (tier s)\<rparr>) = Script \<Longrightarrow>
        tier (s\<lparr>tier := Suc (tier s), pending := loadsOf Script js (tier s)\<rparr>) \<le> length js \<and>
        Loaded ` set (loadsBefore Style css (length css)) \<subseteq> set (tr @ ?evs) \<and>
        Loaded ` set (loadsBefore Script js (tier (s\<lparr>tier := Suc (tier s), pending := loadsOf Script js (tier s)\<rparr>) - 1))
          \<subseteq> set (tr @ ?evs) \<and>
        (\<lambda>(l, url). Started l url) `
          (\<Union>i<tier (s\<lparr>tier := Suc (tier s), pending := loadsOf Script js (tier s)\<rparr>). set (tierLoads Script js i))
          \<subseteq> set (tr @ ?evs)"
      using script_tier(4) css before started' by auto
  qed (use script_tier(1) in simp_all)
  have "set (needs css js e) \<subseteq> set tr" if "e \<in> set ?evs" for e
    using script_tier_event_cases [OF that] before css by (auto simp: planOf_def image_subset_iff)
  with inv show ?case by blast
next
  case (load_event l s)
  from loader_inv_pending [OF load_event(2,1)]
  have ph: "phase s = Script" "0 < tier s" and lt: "l \<in> set (loadsOf Script js (tier s - 1))" by auto
  from loadsOf_tier [OF lt] obtain key where l: "l = (Script, tier s - 1, key)" by blast
  from loader_inv_script [OF load_event(2) ph(1)]
  have scr: "tier s \<le> length js" "Loaded ` set (loadsBefore Style css (length css)) \<subseteq> set tr"
    "Loaded ` set (loadsBefore Script js (tier s - 1)) \<subseteq> set tr"
    "(\<lambda>(l, url). Started l url) ` (\<Union>i<tier s. set (tierLoads Script js i)) \<subseteq> set tr"
    by simp_all
  have started: "(\<lambda>(l, url). Started l url) ` set (tierLoads Script js (tier s - 1)) \<subseteq> set tr"
  proof -
    have "tier s - 1 < tier s" using ph by simp
    then have "set (tierLoads Script js (tier s - 1)) \<subseteq> (\<Union>i<tier s. set (tierLoads Script js i))"
      by blast
    then have "(\<lambda>(l, url). Started l url) ` set (tierLoads Script js (tier s - 1))
        \<subseteq> (\<lambda>(l, url). Started l url) ` (\<Union>i<tier s. set (tierLoads Script js i))"
      by (rule image_mono)
    then show ?thesis using scr(4) by (rule subset_trans)
  qed
  have pend: "x \<in> set (pending s)" if "x \<in> set (remove1 l (pending s))" for x
    using set_remove1_subset [of l "pending s"] that by blast
  have inv: "loader_inv css js (tr @ [Loaded l]) (s\<lparr> pending := remove1 l (pending s) \<rparr>)"
  proof (rule loader_invI)
    fix x assume "x \<in> set (pending (s\<lparr>pending := remove1 l (pending s)\<rparr>))"
    then have "x \<in> set (pending s)" using pend by simp
    from loader_inv_pending [OF load_event(2) this]
    show "phase (s\<lparr>pending := remove1 l (pending s)\<rparr>) = Script \<and>
        0 < tier (s\<lparr>pending := remove1 l (pending s)\<rparr>) \<and>
        x \<in> set (loadsOf Script js (tier (s\<lparr>pending := remove1 l (pending s)\<rparr>) - 1))" by simp
  next
    fix x assume a: "\<not> rejected (s\<lparr>pending := remove1 l (pending s)\<rparr>)"
      "x \<in> set (loadsOf Script js (tier (s\<lparr>pending := remove1 l (pending s)\<rparr>) - 1))"
    then have "x \<in> set (pending s) \<or> Loaded x \<in> set tr"
      using loader_inv_current [OF load_event(2) ph(1) _ ph(2), of x] by simp
    then show "x \<in> set (pending (s\<lparr>pending := remove1 l (pending s)\<rparr>)) \<or> Loaded x \<in> set (tr @ [Loaded l])"
      by (cases "x = l") auto
  qed (use ph scr in \<open>simp_all add: subset_insertI2\<close>)
  have "set (needs css js (Loaded l)) \<subseteq> set tr"
    using started unfolding l needs_script_loaded .
  with inv show ?case by simp
next
  case (error_event l s)
  from loader_inv_pending [OF error_event(2,1)] have ph: "phase s = Script" by simp
  from loader_inv_script [OF error_event(2) ph]
  have scr: "tier s \<le> length js" "Loaded ` set (loadsBefore Style css (length css)) \<subseteq> set tr"
    "Loaded ` set (loadsBefore Script js (tier s - 1)) \<subseteq> set tr"
    "(\<lambda>(l, url). Started l url) ` (\<Union>i<tier s. set (tierLoads Script js i)) \<subseteq> set tr"
    by simp_all
  have pend: "x \<in> set (pending s)" if "x \<in> set (remove1 l (pending s))" for x
    using set_remove1_subset [of l "pending s"] that by blast
  have inv: "loader_inv css js (tr @ [Failed l]) (s\<lparr> pending := remove1 l (pending s), rejected := True \<rparr>)"
  proof (rule loader_invI)
    fix x assume "x \<in> set (pending (s\<lparr>pending := remove1 l (pending s), rejected := True\<rparr>))"
    then have "x \<in> set (pending s)" using pend by simp
    from loader_inv_pending [OF error_event(2) this]
    show "phase (s\<lparr>pending := remove1 l (pending s), rejected := True\<rparr>) = Script \<and>
        0 < tier (s\<lparr>pending := remove1 l (pending s), rejected := True\<rparr>) \<and>
        x \<in> set (loadsOf Script js (tier (s\<lparr>pending := remove1 l (pending s), rejected := True\<rparr>) - 1))"
      by simp
  qed (use ph scr in \<open>simp_all add: subset_insertI2\<close>)
  then show ?case by simp
next
  case (init_call s)
  from loader_inv_script [OF init_call(6,1)]
  have scr: "tier s \<le> length js" "Loaded ` set (loadsBefore Style css (length css)) \<subseteq> set tr"
    "Loaded ` set (loadsBefore Script js (tier s - 1)) \<subseteq> set tr"
    "(\<lambda>(l, url). Started l url) ` (\<Union>i<tier s. set (tierLoads Script js i)) \<subseteq> set tr"
    by simp_all
  have cur: "Loaded l \<in> set tr" if "0 < tier s" "l \<in> set (loadsOf Script js (tier s - 1))" for l
    using loader_inv_current [OF init_call(6,1,2) that] init_call(4) by simp
  have inv: "loader_inv css js (tr @ [Initialised]) (s\<lparr> initialised := True \<rparr>)"
    by (rule loader_invI) (use init_call(1,4) scr cur in \<open>simp_all add: subset_insertI2\<close>)
  then show ?case by simp
qed

lemma loader_run_ordered:
  assumes "loader_run css js tr s"
  shows "loader_inv css js tr s \<and> ordered css js tr"
  using assms
proof (induction rule: loader_run.induct)
  case run_start
  show ?case by (simp add: loader_inv_def loader_start_def ordered_def loadsBefore_def)
next
  case (run_step tr s evs s')
  from loader_step_inv [OF run_step(2)] run_step(3)
  have "loader_inv css js (tr @ evs) s'" and "\<forall>e \<in> set evs. set (needs css js e) \<subseteq> set tr" by auto
  with run_step(3) ordered_append [of css js tr evs] show ?case by blast
qed

lemma loadsBefore_set: "set (loadsBefore k plan j) = (\<Union>i<j. set (loadsOf k plan i))"
  by (auto simp: loadsBefore_def)

text \<open>
  C7: in every run of \<^verbatim>\<open>initH5P\<close>, when \<^verbatim>\<open>scriptLoader\<close> is called for a file of tier \<open>j\<close>
  of a plan, every load of every earlier tier of that plan is already completed, and
  for a script every load of every tier of styles is completed as well; and when a
  script of a tier completes, \<^verbatim>\<open>scriptLoader\<close> has been called for all the files of its
  tier: the files of one tier are started together, the tiers one after the other, all
  styles before any script. (The promise of a stylesheet is resolved by the call
  itself, so a stylesheet counts as loaded as soon as it is injected.)
\<close>

theorem loadDependencies_tiers_in_order:
  assumes "loader_run css js tr s"
  shows "(\<forall>xs ys k j key url. tr = xs @ Started (k, j, key) url # ys \<longrightarrow>
            (\<forall>i<j. \<forall>l \<in> set (loadsOf k (planOf k css js) i). Loaded l \<in> set xs) \<and>
            (k = Script \<longrightarrow> (\<forall>i<length css. \<forall>l \<in> set (loadsOf Style css i). Loaded l \<in> set xs))) \<and>
         (\<forall>xs ys i key. tr = xs @ Loaded (Script, i, key) # ys \<longrightarrow>
            (\<forall>(l, url) \<in> set (tierLoads Script js i). Started l url \<in> set xs))"
proof -
  from loader_run_ordered [OF assms] have ord: "ordered css js tr" by simp
  have started: "(\<forall>i<j. \<forall>l \<in> set (loadsOf k (planOf k css js) i). Loaded l \<in> set xs) \<and>
            (k = Script \<longrightarrow> (\<forall>i<length css. \<forall>l \<in> set (loadsOf Style css i). Loaded l \<in> set xs))"
    if "tr = xs @ Started (k, j, key) url # ys" for xs ys k j key url
  proof -
    from ord that have "set (needs css js (Started (k, j, key) url)) \<subseteq> set xs"
      unfolding ordered_def by blast
    then show ?thesis by (cases k) (simp_all add: loadsBefore_set image_subset_iff)
  qed
  have loaded: "\<forall>(l, url) \<in> set (tierLoads Script js i). Started l url \<in> set xs"
    if "tr = xs @ Loaded (Script, i, key) # ys" for xs ys i key
  proof -
    from ord that have "set (needs css js (Loaded (Script, i, key))) \<subseteq> set xs"
      unfolding ordered_def by blast
    then show ?thesis by auto
  qed
  show ?thesis
  proof (rule conjI)
    show "\<forall>xs ys k j key url. tr = xs @ Started (k, j, key) url # ys \<longrightarrow>
            (\<forall>i<j. \<forall>l \<in> set (loadsOf k (planOf k css js) i). Loaded l \<in> set xs) \<and>
            (k = Script \<longrightarrow> (\<forall>i<length css. \<forall>l \<in> set (loadsOf Style css i). Loaded l \<in> set xs))"
    proof (intro allI, rule impI)
      fix xs ys k j key url assume "tr = xs @ Started (k, j, key) url # ys"
      then show "(\<forall>i<j. \<forall>l \<in> set (loadsOf k (planOf k css js) i). Loaded l \<in> set xs) \<and>
            (k = Script \<longrightarrow> (\<forall>i<length css. \<forall>l \<in> set (loadsOf Style css i). Loaded l \<in> set xs))"
        by (rule started)
    qed
  next
    show "\<forall>xs ys i key. tr = xs @ Loaded (Script, i, key) # ys \<longrightarrow>
            (\<forall>(l, url) \<in> set (tierLoads Script js i). Started l url \<in> set xs)"
    proof (intro allI, rule impI)
      fix xs ys i key assume "tr = xs @ Loaded (Script, i, key) # ys"
      then show "\<forall>(l, url) \<in> set (tierLoads Script js i). Started l url \<in> set xs"
        by (rule loaded)
    qed
  qed
qed

theorem loadDependencies_tiers_in_order_witness:
  "loader_run exampleStyles exampleScripts exampleTrace
     \<lparr> phase = Script, tier = 2, pending = [], rejected = False, initialised = True \<rparr> \<and>
   Loaded (Script, 0, ''d.js'') \<in> set (take 4 exampleTrace) \<and>
   Loaded (Style, 0, ''b.css'') \<in> set (take 4 exampleTrace) \<and>
   Started (Script, 1, ''b1.js'') ''blob:2'' \<in> set (take 6 exampleTrace)"
proof -
  let ?C = exampleStyles and ?J = exampleScripts
  have r1: "loader_run ?C ?J [Started (Style, 0, ''b.css'') ''blob:0'', Loaded (Style, 0, ''b.css'')]
      \<lparr> phase = Style, tier = 1, pending = [], rejected = False, initialised = False \<rparr>"
    using run_step [OF run_start loader_step.style_tier [of loader_start ?C ?J]]
    by (simp add: loader_start_def exampleStyles_def tierLoads_def)
  have r2: "loader_run ?C ?J [Started (Style, 0, ''b.css'') ''blob:0'', Loaded (Style, 0, ''b.css'')]
      \<lparr> phase = Script, tier = 0, pending = [], rejected = False, initialised = False \<rparr>"
    using run_step [OF r1 loader_step.styles_done [of _ ?C ?J]]
    by (simp add: exampleStyles_def)
  have r3: "loader_run ?C ?J [Started (Style, 0, ''b.css'') ''blob:0'', Loaded (Style, 0, ''b.css''),
        Started (Script, 0, ''d.js'') ''blob:1'']
      \<lparr> phase = Script, tier = 1, pending = [(Script, 0, ''d.js'')], rejected = False, initialised = False \<rparr>"
    using run_step [OF r2 loader_step.script_tier [of _ ?J ?C]]
    by (simp add: exampleScripts_def tierLoads_def loadsOf_def)
  have r4: "loader_run ?C ?J [Started (Style, 0, ''b.css'') ''blob:0'', Loaded (Style, 0, ''b.css''),
        Started (Script, 0, ''d.js'') ''blob:1'', Loaded (Script, 0, ''d.js'')]
      \<lparr> phase = Script, tier = 1, pending = [], rejected = False, initialised = False \<rparr>"
    using run_step [OF r3 loader_step.load_event [of "(Script, 0, ''d.js'')" _ ?C ?J]]
    by simp
  have r5: "loader_run ?C ?J [Started (Style, 0, ''b.css'') ''blob:0'', Loaded (Style, 0, ''b.css''),
        Started (Script, 0, ''d.js'') ''blob:1'', Loaded (Script, 0, ''d.js''),
        Started (Script, 1, ''b1.js'') ''blob:2'', Started (Script, 1, ''b2.js'') ''blob:3'']
      \<lparr> phase = Script, tier = 2, pending = [(Script, 1, ''b1.js''), (Script, 1, ''b2.js'')],
        rejected = False, initialised = False \<rparr>"
    using run_step [OF r4 loader_step.script_tier [of _ ?J ?C]]
    by (simp add: exampleScripts_def tierLoads_def loadsOf_def numeral_2_eq_2)
  have r6: "loader_run ?C ?J [Started (Style, 0, ''b.css'') ''blob:0'', Loaded (Style, 0, ''b.css''),
        Started (Script, 0, ''d.js'') ''blob:1'', Loaded (Script, 0, ''d.js''),
        Started (Script, 1, ''b1.js'') ''blob:2'', Started (Script, 1, ''b2.js'') ''blob:3'',
        Loaded (Script, 1, ''b2.js'')]
      \<lparr> phase = Script, tier = 2, pending = [(Script, 1, ''b1.js'')], rejected = False, initialised = False \<rparr>"
    using run_step [OF r5 loader_step.load_event [of "(Script, 1, ''b2.js'')" _ ?C ?J]]
    by (simp add: numeral_2_eq_2)
  have r7: "loader_run ?C ?J [Started (Style, 0, ''b.css'') ''blob:0'', Loaded (Style, 0, ''b.css''),
        Started (Script, 0, ''d.js'') ''blob:1'', Loaded (Script, 0, ''d.js''),
        Started (Script, 1, ''b1.js'') ''blob:2'', Started (Script, 1, ''b2.js'') ''blob:3'',
        Loaded (Script, 1, ''b2.js''), Loaded (Script, 1, ''b1.js'')]
      \<lparr> phase = Script, tier = 2, pending = [], rejected = False, initialised = False \<rparr>"
    using run_step [OF r6 loader_step.load_event [of "(Script, 1, ''b1.js'')" _ ?C ?J]]
    by (simp add: numeral_2_eq_2)
  have r8: "loader_run ?C ?J exampleTrace
      \<lparr> phase = Script, tier = 2, pending = [], rejected = False, initialised = True \<rparr>"
    using run_step [OF r7 loader_step.init_call [of _ ?J ?C]]
    by (simp add: exampleScripts_def exampleTrace_def numeral_2_eq_2)
  have split1: "exampleTrace = take 4 exampleTrace @ Started (Script, 1, ''b1.js'') ''blob:2'' # drop 5 exampleTrace"
    by (simp add: exampleTrace_def)
  have split2: "exampleTrace = take 6 exampleTrace @ Loaded (Script, 1, ''b2.js'') # drop 7 exampleTrace"
    by (simp add: exampleTrace_def)
  note started = loadDependencies_tiers_in_order [OF r8, THEN conjunct1, rule_format, OF split1]
  note loaded = loadDependencies_tiers_in_order [OF r8, THEN conjunct2, rule_format, OF split2]
  have "Loaded (Script, 0, ''d.js'') \<in> set (take 4 exampleTrace)"
    by (rule started [THEN conjunct1, rule_format, of 0])
      (simp_all add: planOf_def loadsOf_def tierLoads_def exampleScripts_def)
  moreover have "Loaded (Style, 0, ''b.css'') \<in> set (take 4 exampleTrace)"
    by (rule started [THEN conjunct2, rule_format, of 0])
      (simp_all add: loadsOf_def tierLoads_def exampleStyles_def)
  moreover have "Started (Script, 1, ''b1.js'') ''blob:2'' \<in> set (take 6 exampleTrace)"
    using loaded [of "((Script, 1, ''b1.js''), ''blob:2'')"]
    by (simp add: tierLoads_def exampleScripts_def)
  ultimately show ?thesis using r8 by blast
qed

subsection \<open>The reports of a debounced verb\<close>

lemma handlerOptions_simps:
  "wait handlerOptions = 5000" "leading handlerOptions" "maxWait handlerOptions = Some 30000"
  "trailing handlerOptions"
  by (simp_all add: handlerOptions_def debounceDelay_def maxDelay_def)

lemma objGet_handlers: "map_of obj k = Some d \<Longrightarrow> objGet obj k = Own d"
  by (simp add: objGet_def)

lemma collapsing_dispatch:
  assumes inv: "collapsing key t1 s1 tk sk later h"
    and allowed: "objGet (doNotLogVerbMap V) key = Undefined"
    and step: "xAPI_step V True h (Dispatch t st) = Some h'"
    and st: "verb_id st = key" and t: "t < t1 + debounceDelay * 1000"
  shows "collapsing key t1 s1 t st True h'"
proof -
  from inv obtain d where d: "map_of (debouncedHandlers h) key = Some d"
    and others: "\<forall>k d'. k \<noteq> key \<longrightarrow> map_of (debouncedHandlers h) k = Some d' \<longrightarrow> timerId d' = None"
    and times: "t1 \<le> tk" "tk < t1 + debounceDelay * 1000" "tk \<le> clock h"
    and called: "lastCallTime d = Some tk"
    and phase: "timerId d = Some (t1 + debounceDelay * 1000) \<and> clock h = tk \<and> lastInvokeTime d = t1 \<and>
           sent h = [(t1, s1)] \<and> lastArgs d = (if later then Some sk else None)
         \<or> t1 + debounceDelay * 1000 \<le> clock h"
    unfolding collapsing_def by blast
  from step have now: "clock h \<le> t" by (simp split: if_splits)
  with t phase have p1: "timerId d = Some (t1 + debounceDelay * 1000)" "clock h = tk"
    "lastInvokeTime d = t1" "sent h = [(t1, s1)]" by auto
  have quiet: "\<not> shouldInvoke handlerOptions d t"
    using called p1 now t times by (simp add: shouldInvoke_def handlerOptions_simps debounceDelay_def)
  have deb: "debounced handlerOptions d t st = (d\<lparr> lastArgs := Some st, lastCallTime := Some t \<rparr>, None)"
    using quiet p1 by (simp add: debounced_def)
  from step now have h': "h' = xAPI_listener V True t st (h\<lparr> clock := t \<rparr>)" by simp
  have "h' = h\<lparr> clock := t, debouncedHandlers :=
      AList.update key (d\<lparr> lastArgs := Some st, lastCallTime := Some t \<rparr>) (debouncedHandlers h) \<rparr>"
    unfolding h' using allowed st d deb
    by (simp add: xAPI_listener_def objGet_handlers sendStatement_def)
  then show ?thesis
    using d others times p1 now t
    by (simp add: collapsing_def update_conv')
qed

lemma collapsing_timeout:
  assumes inv: "collapsing key t1 s1 tk sk later h"
    and step: "xAPI_step V True h (Timeout t k) = Some h'"
  shows "collapsing key t1 s1 tk sk later h'"
proof -
  from inv obtain d where d: "map_of (debouncedHandlers h) key = Some d"
    and others: "\<forall>k d'. k \<noteq> key \<longrightarrow> map_of (debouncedHandlers h) k = Some d' \<longrightarrow> timerId d' = None"
    and times: "t1 \<le> tk" "tk < t1 + debounceDelay * 1000" "tk \<le> clock h"
    and first: "\<not> later \<longrightarrow> tk = t1 \<and> sk = s1"
    and called: "lastCallTime d = Some tk"
    and phase: "timerId d = Some (t1 + debounceDelay * 1000) \<and> clock h = tk \<and> lastInvokeTime d = t1 \<and>
           sent h = [(t1, s1)] \<and> lastArgs d = (if later then Some sk else None)
         \<or> timerId d = Some (tk + debounceDelay * 1000) \<and> t1 + debounceDelay * 1000 \<le> clock h \<and>
           lastInvokeTime d = t1 \<and> sent h = [(t1, s1)] \<and> lastArgs d = Some sk \<and> later
         \<or> timerId d = None"
    unfolding collapsing_def by blast
  have key: "k = key"
  proof (rule ccontr)
    assume "k \<noteq> key"
    with others step show False by (auto split: option.splits)
  qed
  from step key d obtain due where due: "timerId d = Some due" and late: "due \<le> t" "clock h \<le> t"
    and h': "h' = sendStatement t (snd (timerExpired handlerOptions d t))
                    (h\<lparr> debouncedHandlers := AList.update key (fst (timerExpired handlerOptions d t))
                           (debouncedHandlers h), clock := t \<rparr>)"
    by (auto split: option.splits if_splits)
  have others': "\<forall>k d'. k \<noteq> key \<longrightarrow> map_of (AList.update key x (debouncedHandlers h)) k = Some d' \<longrightarrow>
      timerId d' = None" for x
    using others by (simp add: update_conv')
  from phase due consider
    (one) "timerId d = Some (t1 + debounceDelay * 1000)" "clock h = tk" "lastInvokeTime d = t1"
      "sent h = [(t1, s1)]" "lastArgs d = (if later then Some sk else None)"
    | (two) "timerId d = Some (tk + debounceDelay * 1000)" "t1 + debounceDelay * 1000 \<le> clock h"
      "lastInvokeTime d = t1" "sent h = [(t1, s1)]" "lastArgs d = Some sk" "later"
    by auto
  then show ?thesis
  proof cases
    case one
    with due late have t: "t1 + debounceDelay * 1000 \<le> t" by simp
    show ?thesis
    proof (cases "shouldInvoke handlerOptions d t")
      case True
      with called one times t have far: "tk + debounceDelay * 1000 \<le> t"
        by (auto simp: shouldInvoke_def handlerOptions_simps debounceDelay_def)
      show ?thesis
      proof (cases later)
        case True
        with one \<open>shouldInvoke handlerOptions d t\<close>
        have "timerExpired handlerOptions d t
            = (d\<lparr> timerId := None, lastArgs := None, lastInvokeTime := t \<rparr>, Some sk)"
          by (simp add: timerExpired_def trailingEdge_def invokeFunc_def handlerOptions_simps)
        with h' one have "h' = h\<lparr> debouncedHandlers := AList.update key
              (d\<lparr> timerId := None, lastArgs := None, lastInvokeTime := t \<rparr>) (debouncedHandlers h),
            clock := t, sent := [(t1, s1), (t, sk)] \<rparr>"
          by (simp add: sendStatement_def)
        then show ?thesis
          using others' times first called t far late
          by (simp add: collapsing_def update_conv')
      next
        case False
        with one \<open>shouldInvoke handlerOptions d t\<close>
        have "timerExpired handlerOptions d t = (d\<lparr> timerId := None, lastArgs := None \<rparr>, None)"
          by (simp add: timerExpired_def trailingEdge_def handlerOptions_simps)
        with h' one have "h' = h\<lparr> debouncedHandlers := AList.update key
              (d\<lparr> timerId := None, lastArgs := None \<rparr>) (debouncedHandlers h), clock := t \<rparr>"
          by (simp add: sendStatement_def)
        then show ?thesis
          using others' times first called t late one
          by (simp add: collapsing_def update_conv')
      qed
    next
      case False
      with called have near: "t - tk < debounceDelay * 1000"
        by (auto simp: shouldInvoke_def handlerOptions_simps debounceDelay_def)
      with t first have later: later by auto
      have "remainingWait handlerOptions d t = tk + debounceDelay * 1000 - t"
        using called one times near t
        by (simp add: remainingWait_def handlerOptions_simps debounceDelay_def)
      with False have "timerExpired handlerOptions d t
          = (d\<lparr> timerId := Some (tk + debounceDelay * 1000) \<rparr>, None)"
        by (simp add: timerExpired_def)
      with h' have "h' = h\<lparr> debouncedHandlers := AList.update key
            (d\<lparr> timerId := Some (tk + debounceDelay * 1000) \<rparr>) (debouncedHandlers h), clock := t \<rparr>"
        by (simp add: sendStatement_def)
      then show ?thesis
        using others' times first called t late one later
        by (simp add: collapsing_def update_conv')
    qed
  next
    case two
    with due late have far: "tk + debounceDelay * 1000 \<le> t" by simp
    with called have "shouldInvoke handlerOptions d t"
      by (simp add: shouldInvoke_def handlerOptions_simps debounceDelay_def)
    with two have "timerExpired handlerOptions d t
        = (d\<lparr> timerId := None, lastArgs := None, lastInvokeTime := t \<rparr>, Some sk)"
      by (simp add: timerExpired_def trailingEdge_def invokeFunc_def handlerOptions_simps)
    with h' two have "h' = h\<lparr> debouncedHandlers := AList.update key
          (d\<lparr> timerId := None, lastArgs := None, lastInvokeTime := t \<rparr>) (debouncedHandlers h),
        clock := t, sent := [(t1, s1), (t, sk)] \<rparr>"
      by (simp add: sendStatement_def)
    then show ?thesis
      using others' times first called two far late
      by (simp add: collapsing_def update_conv')
  qed
qed

lemma collapsing_run:
  assumes allowed: "objGet (doNotLogVerbMap V) key = Undefined"
  shows "collapsing key t1 s1 tk sk later h \<Longrightarrow> xAPI_run V True h xs = Some h' \<Longrightarrow>
     \<forall>(t, st) \<in> set (dispatched xs). verb_id st = key \<and> t < t1 + debounceDelay * 1000 \<Longrightarrow>
     \<exists>later'. collapsing key t1 s1 (fst (last ((tk, sk) # dispatched xs)))
       (snd (last ((tk, sk) # dispatched xs))) later' h'"
proof (induction xs arbitrary: h tk sk later)
  case Nil
  then show ?case by auto
next
  case (Cons x xs)
  from Cons.prems(2) obtain h1 where step: "xAPI_step V True h x = Some h1"
    and run: "xAPI_run V True h1 xs = Some h'"
    by (auto split: option.splits)
  show ?case
  proof (cases x)
    case (Dispatch t st)
    with Cons.prems(3) have st: "verb_id st = key" and t: "t < t1 + debounceDelay * 1000"
      and rest: "\<forall>(t, st) \<in> set (dispatched xs). verb_id st = key \<and> t < t1 + debounceDelay * 1000"
      by auto
    from collapsing_dispatch [OF Cons.prems(1) allowed _ st t] step Dispatch
    have "collapsing key t1 s1 t st True h1" by simp
    from Cons.IH [OF this run rest] Dispatch show ?thesis by simp
  next
    case (Timeout t k)
    with Cons.prems(3) have rest: "\<forall>(t, st) \<in> set (dispatched xs). verb_id st = key \<and> t < t1 + debounceDelay * 1000"
      by simp
    from collapsing_timeout [OF Cons.prems(1)] step Timeout
    have "collapsing key t1 s1 tk sk later h1" by simp
    from Cons.IH [OF this run rest] Timeout show ?thesis by simp
  qed
qed

lemma shimH5P_handler:
  assumes "verb \<in> set debounceVerbs" and "V verb \<noteq> ''__proto__''"
  shows "map_of (debouncedHandlers (shimH5P V now)) (V verb) = Some debounce"
  using assms
  by (auto simp: shimH5P_def debounceVerbs_def objSet_def update_conv' split: if_splits)

lemma shimH5P_handlers:
  "map_of (debouncedHandlers (shimH5P V now)) k = Some d' \<Longrightarrow> d' = debounce"
  by (auto simp: shimH5P_def debounceVerbs_def objSet_def update_conv' split: if_splits)

lemma collapsing_first:
  assumes verb: "verb \<in> set debounceVerbs"
    and allowed: "objGet (doNotLogVerbMap V) (V verb) = Undefined"
    and step: "xAPI_step V True (shimH5P V now) (Dispatch t1 s1) = Some h"
    and st: "verb_id s1 = V verb"
  shows "collapsing (V verb) t1 s1 t1 s1 False h"
proof -
  from allowed have proto: "V verb \<noteq> ''__proto__''"
    by (auto simp: objGet_def objectPrototype_def split: option.splits if_splits)
  have handler: "map_of (debouncedHandlers (shimH5P V now)) (V verb) = Some debounce"
    using verb proto by (rule shimH5P_handler)
  from step have h: "h = xAPI_listener V True t1 s1 ((shimH5P V now)\<lparr> clock := t1 \<rparr>)"
    by (simp split: if_splits)
  have deb: "debounced handlerOptions (debounce :: statement debounced) t1 s1
      = (\<lparr> lastArgs = None, lastCallTime = Some t1, lastInvokeTime = t1,
           timerId = Some (t1 + debounceDelay * 1000) \<rparr>, Some s1)"
    by (simp add: debounced_def shouldInvoke_def debounce_def leadingEdge_def invokeFunc_def
        handlerOptions_simps debounceDelay_def)
  have "h = (shimH5P V now)\<lparr> clock := t1, sent := [(t1, s1)],
      debouncedHandlers := AList.update (V verb)
        \<lparr> lastArgs = None, lastCallTime = Some t1, lastInvokeTime = t1,
          timerId = Some (t1 + debounceDelay * 1000) \<rparr> (debouncedHandlers (shimH5P V now)) \<rparr>"
    unfolding h using allowed st handler deb
    by (simp add: xAPI_listener_def objGet_handlers sendStatement_def shimH5P_def)
  moreover have "timerId d' = None"
    if "map_of (debouncedHandlers (shimH5P V now)) k = Some d'" for k d'
    using shimH5P_handlers [OF that] by (simp add: debounce_def)
  ultimately show ?thesis
    by (auto simp: collapsing_def update_conv' debounceDelay_def)
qed

text \<open>
  C9: for every verb of the debounced set whose id is not refused by the deny-list, if
  all the events dispatched to the hook carry that verb and fall within the five
  seconds after the first of them (ten events or any other number), then, while
  \<^verbatim>\<open>contentWindow.xAPI\<close> is set, the hook reports the statement of the first event at the
  time of that event, and at most one more statement: the one of the last event, no
  earlier than five seconds after it. There are never more than two reports.
\<close>

theorem debounced_verb_reports_collapse:
  assumes "xAPI_run V True (shimH5P V now) hs = Some h"
    and "verb \<in> set debounceVerbs"
    and "objGet (doNotLogVerbMap V) (V verb) = Undefined"
    and "dispatched hs = (t1, s1) # evs"
    and "\<forall>(t, st) \<in> set (dispatched hs). verb_id st = V verb \<and> t < t1 + debounceDelay * 1000"
  shows "(sent h = [(t1, s1)] \<or>
          (\<exists>t. fst (last ((t1, s1) # evs)) + debounceDelay * 1000 \<le> t \<and>
             sent h = [(t1, s1), (t, snd (last ((t1, s1) # evs)))])) \<and>
         length (sent h) \<le> 2"
proof -
  from assms(4) obtain x xs where hs: "hs = x # xs" by (cases hs) auto
  from assms(1) hs obtain h1 where step: "xAPI_step V True (shimH5P V now) x = Some h1"
    and run: "xAPI_run V True h1 xs = Some h"
    by (auto split: option.splits)
  from assms(3) have proto: "V verb \<noteq> ''__proto__''"
    by (auto simp: objGet_def objectPrototype_def split: option.splits if_splits)
  have x: "x = Dispatch t1 s1"
  proof (cases x)
    case (Dispatch t st)
    with assms(4) hs show ?thesis by simp
  next
    case (Timeout t k)
    show ?thesis
    proof (cases "map_of (debouncedHandlers (shimH5P V now)) k")
      case None
      with step Timeout show ?thesis by simp
    next
      case (Some d')
      with shimH5P_handlers [of V now k d'] have "timerId d' = None" by (simp add: debounce_def)
      with step Timeout Some show ?thesis by simp
    qed
  qed
  with assms(4) hs have evs: "dispatched xs = evs" by simp
  from assms(5) assms(4) have st: "verb_id s1 = V verb"
    and rest: "\<forall>(t, st) \<in> set evs. verb_id st = V verb \<and> t < t1 + debounceDelay * 1000"
    by auto
  from collapsing_first [OF assms(2,3) _ st] step x
  have "collapsing (V verb) t1 s1 t1 s1 False h1" by simp
  from collapsing_run [OF assms(3) this run] rest evs obtain later'
    where "collapsing (V verb) t1 s1 (fst (last ((t1, s1) # evs))) (snd (last ((t1, s1) # evs))) later' h"
    by auto
  then show ?thesis unfolding collapsing_def by auto
qed

theorem debounced_verb_reports_collapse_witness:
  "''interacted'' \<in> set debounceVerbs \<and>
   objGet (doNotLogVerbMap exampleVocabulary) (exampleVocabulary ''interacted'') = Undefined \<and>
   length (dispatched exampleHappenings) = 10 \<and>
   (\<exists>h. xAPI_run exampleVocabulary True (shimH5P exampleVocabulary 0) exampleHappenings = Some h \<and>
        (sent h = [(1000, exampleStatement 0)] \<or>
         (\<exists>t. 9600 \<le> t \<and> sent h = [(1000, exampleStatement 0), (t, exampleStatement 9)])) \<and>
        length (sent h) \<le> 2 \<and>
        sent h = [(1000, exampleStatement 0), (9600, exampleStatement 9)])"
proof -
  have verb: "''interacted'' \<in> set debounceVerbs" by (simp add: debounceVerbs_def)
  have allowed: "objGet (doNotLogVerbMap exampleVocabulary) (exampleVocabulary ''interacted'') = Undefined"
    by code_simp
  have len: "length (dispatched exampleHappenings) = 10" by code_simp
  have evs: "dispatched exampleHappenings = (1000, exampleStatement 0) #
      map (\<lambda>n. (1000 + 400 * int n, exampleStatement n)) [1..<10]"
    by code_simp
  have window: "\<forall>(t, st) \<in> set (dispatched exampleHappenings).
      verb_id st = exampleVocabulary ''interacted'' \<and> t < 1000 + debounceDelay * 1000"
    unfolding evs by (simp add: exampleStatement_def debounceDelay_def upt_conv_Cons)
  have last: "last ((1000, exampleStatement 0) # map (\<lambda>n. (1000 + 400 * int n, exampleStatement n)) [1..<10])
      = (4600, exampleStatement 9)"
    by code_simp
  have "map_option sent (xAPI_run exampleVocabulary True (shimH5P exampleVocabulary 0) exampleHappenings)
      = Some [(1000, exampleStatement 0), (9600, exampleStatement 9)]"
    by code_simp
  then obtain h where run: "xAPI_run exampleVocabulary True (shimH5P exampleVocabulary 0) exampleHappenings = Some h"
    and sent: "sent h = [(1000, exampleStatement 0), (9600, exampleStatement 9)]"
    by auto
  from debounced_verb_reports_collapse [OF run verb allowed evs window]
  have "(sent h = [(1000, exampleStatement 0)] \<or>
         (\<exists>t. 9600 \<le> t \<and> sent h = [(1000, exampleStatement 0), (t, exampleStatement 9)])) \<and>
        length (sent h) \<le> 2"
    unfolding last by (simp add: debounceDelay_def)
  with verb allowed len run sent show ?thesis by blast
qed

end
